theory Spec2Isabelle
  imports Main "HOL-Library.Sublist"
begin

section \<open>C strings\<close>

text \<open>
  A C string is modelled by the list of its characters up to, and without, the
  terminating NUL.  A pointer into the string is an index; reading through a pointer
  outside the buffer is a fault of the model, never a value.
\<close>

datatype fault = OutOfBounds

definition strlen :: "string \<Rightarrow> nat" where
  "strlen s = length s"

text \<open>
  \<open>strstr\<close> of the C library: the index of the first occurrence of the needle, or
  \<open>None\<close> for the NULL pointer.
\<close>

fun strstr :: "string \<Rightarrow> string \<Rightarrow> nat option" where
  "strstr [] needle = (if needle = [] then Some 0 else None)"
| "strstr (c # cs) needle =
     (if prefix needle (c # cs) then Some 0 else map_option Suc (strstr cs needle))"

text \<open>
  \<open>char_at buf i\<close> is the read \<open>buf[i]\<close>: a character of the string, the terminating NUL
  at index \<open>length buf\<close>, and a fault anywhere else (in particular at \<open>-1\<close>).
\<close>

definition char_at :: "string \<Rightarrow> int \<Rightarrow> fault + char" where
  "char_at buf i =
     (if 0 \<le> i \<and> i < int (length buf) then Inr (buf ! nat i)
      else if i = int (length buf) then Inr (CHR 0x00)
      else Inl OutOfBounds)"

section \<open>The listener table and the filters\<close>

datatype event_id = HIDE_EVENT | LOG_EVENT | DEBUG_EVENT

record log_listener =
  fd :: int
  filter_fn :: "string \<Rightarrow> fault + bool"

definition am_proc_start_filter :: "string \<Rightarrow> fault + bool" where
  "am_proc_start_filter log = Inr (strstr log ''am_proc_start'' \<noteq> None)"

text \<open>
  \<open>(ss = strstr(log, " Magisk")) && (ss[-1] != 'D') && (ss[-1] != 'V')\<close>: the
  conjunction is evaluated left to right, and \<open>ss[-1]\<close> is the character at index
  \<open>ss - 1\<close> of \<open>log\<close>.
\<close>

definition magisk_log_filter :: "string \<Rightarrow> fault + bool" where
  "magisk_log_filter log =
     (case strstr log '' Magisk'' of
        None \<Rightarrow> Inr False
      | Some ss \<Rightarrow>
          (case char_at log (int ss - 1) of
             Inl e \<Rightarrow> Inl e
           | Inr c \<Rightarrow>
               if c \<noteq> CHR ''D'' then
                 (case char_at log (int ss - 1) of
                    Inl e \<Rightarrow> Inl e
                  | Inr c' \<Rightarrow> Inr (c' \<noteq> CHR ''V''))
               else Inr False))"

definition magisk_debug_log_filter :: "string \<Rightarrow> fault + bool" where
  "magisk_debug_log_filter log = Inr (strstr log ''am_proc_start'' = None)"

definition log_events_init :: "event_id \<Rightarrow> log_listener" where
  "log_events_init i =
     (case i of
        HIDE_EVENT \<Rightarrow> \<lparr>fd = - 1, filter_fn = am_proc_start_filter\<rparr>
      | LOG_EVENT \<Rightarrow> \<lparr>fd = - 1, filter_fn = magisk_log_filter\<rparr>
      | DEBUG_EVENT \<Rightarrow> \<lparr>fd = - 1, filter_fn = magisk_debug_log_filter\<rparr>)"

text \<open>The indices \<open>0 .. EVENT_NUM - 1\<close> of the table, in the order the loops visit them.\<close>

definition all_events :: "event_id list" where
  "all_events = [HIDE_EVENT, LOG_EVENT, DEBUG_EVENT]"

definition EVENT_NUM :: nat where
  "EVENT_NUM = length all_events"

section \<open>Global state and the calls the program makes\<close>

text \<open>
  Every call into the system, and every store to a slot's \<open>fd\<close>, is appended to a trace,
  so that what was written, closed, killed and reaped, and in which order, can be read
  off the final state.  The arguments of an event are the arguments of the call; results
  the environment chooses (a new pid, a descriptor, the value \<open>read\<close> returns) are part
  of the event as well.
\<close>

datatype event =
    Exec_command "string list" int int
  | Read int nat int
  | Kill int int
  | Waitpid int
  | Fclose int
  | Write int string
  | Close int
  | Store_fd event_id int
  | Mutex_lock
  | Mutex_unlock
  | Pthread_create int
  | Accept4 int
  | Read_int int int
  | Connect_daemon2 int
  | Write_int int int

record state =
  loggable :: int
  thread :: int
  log_events :: "event_id \<Rightarrow> log_listener"
  trace :: "event list"

definition init_state :: state where
  "init_state = \<lparr>loggable = 1, thread = - 1, log_events = log_events_init, trace = []\<rparr>"

definition emit :: "event \<Rightarrow> state \<Rightarrow> state" where
  "emit ev s = s\<lparr>trace := trace s @ [ev]\<rparr>"

text \<open>The store \<open>log_events[i].fd = v\<close>.\<close>

definition set_fd :: "event_id \<Rightarrow> int \<Rightarrow> state \<Rightarrow> state" where
  "set_fd i v s =
     emit (Store_fd i v) (s\<lparr>log_events := (log_events s)(i := (log_events s i)\<lparr>fd := v\<rparr>)\<rparr>)"

definition SIGTERM :: int where
  "SIGTERM = 15"

section \<open>The probe\<close>

text \<open>
  What the environment answers to one run of \<open>test_logcat\<close>: the pid and the descriptor
  \<open>exec_command\<close> hands back, and the value the blocking \<open>read\<close> returns; \<open>None\<close>
  is a \<open>read\<close> that never returns (the child neither writes nor closes the pipe).
\<close>

record probe_env =
  p_pid :: int
  p_fd :: int
  p_read :: "int option"

definition test_logcat :: "probe_env \<Rightarrow> state \<Rightarrow> state option" where
  "test_logcat e s =
     (let s1 = emit (Exec_command [''logcat''] (p_pid e) (p_fd e)) s in
      case p_read e of
        None \<Rightarrow> None
      | Some n \<Rightarrow>
          let s2 = emit (Read (p_fd e) 1 n) s1;
              s3 = (if n \<noteq> 1 then s2\<lparr>loggable := 0\<rparr> else s2);
              s4 = emit (Kill (p_pid e) SIGTERM) s3;
              s5 = emit (Waitpid (p_pid e)) s4
          in Some s5)"

section \<open>The broken-pipe handler and the write\<close>

definition sigpipe_handler :: "state \<Rightarrow> state" where
  "sigpipe_handler s =
     set_fd HIDE_EVENT (- 1) (emit (Close (fd (log_events s HIDE_EVENT))) s)"

text \<open>
  \<open>write(f, buf, n)\<close>, its result ignored by the caller.  \<open>broken\<close> are the descriptors
  whose reader is gone: a write to one of them raises SIGPIPE in the writing thread,
  whose handler runs before the call returns.
\<close>

definition write_sys :: "int set \<Rightarrow> int \<Rightarrow> string \<Rightarrow> nat \<Rightarrow> state \<Rightarrow> state" where
  "write_sys broken f buf n s =
     (let s1 = emit (Write f (take n buf)) s in
      if f \<in> broken then sigpipe_handler s1 else s1)"

section \<open>The acceptor thread\<close>

datatype thread_outcome = Thread_returned | Blocked_in_accept

text \<open>
  \<open>socket_thread\<close> over the connections that arrive, each with the descriptor
  \<open>accept4\<close> returns and the integer \<open>read_int\<close> reads from it.  \<open>hide_connect\<close> is the
  value of the constant \<open>HIDE_CONNECT\<close>, declared in a header that is not part of the
  sources at hand.  With no connection left the thread is blocked in \<open>accept4\<close>.
\<close>

fun socket_thread :: "int \<Rightarrow> (int \<times> int) list \<Rightarrow> state \<Rightarrow> thread_outcome \<times> state" where
  "socket_thread hide_connect [] s = (Blocked_in_accept, s)"
| "socket_thread hide_connect ((cfd, code) # conns) s =
     (let s1 = emit (Read_int cfd code) (emit (Accept4 cfd) s) in
      if code = hide_connect then
        (let s2 = emit Mutex_lock s1;
             s3 = set_fd HIDE_EVENT cfd s2;
             s4 = emit Mutex_unlock s3
         in (Thread_returned, s4\<lparr>thread := - 1\<rparr>))
      else socket_thread hide_connect conns (emit (Close cfd) s1))"

section \<open>The dispatch loop\<close>

text \<open>
  One line of the stream as the loop meets it: the line \<open>fgets\<close> delivered, the
  descriptors that are broken while it is dispatched, the thread id
  \<open>xpthread_create\<close> would store, and the value of \<open>kill(log_pid, 0)\<close> after it.
\<close>

record line_ev =
  l_line :: string
  l_broken :: "int set"
  l_tid :: int
  l_kill :: int

text \<open>The body of the \<open>for\<close> loop over the table, for the slots still to visit.\<close>

fun for_events :: "int set \<Rightarrow> string \<Rightarrow> nat \<Rightarrow> event_id list \<Rightarrow> state \<Rightarrow> fault + state" where
  "for_events broken line len [] s = Inr s"
| "for_events broken line len (i # is) s =
     (if fd (log_events s i) > 0 then
        (case filter_fn (log_events s i) line of
           Inl e \<Rightarrow> Inl e
         | Inr True \<Rightarrow>
             for_events broken line len is (write_sys broken (fd (log_events s i)) line len s)
         | Inr False \<Rightarrow> for_events broken line len is s)
      else for_events broken line len is s)"

text \<open>\<open>xpthread_create(&thread, NULL, socket_thread, NULL)\<close>, then detached.\<close>

definition xpthread_create :: "int \<Rightarrow> state \<Rightarrow> state" where
  "xpthread_create tid s = emit (Pthread_create tid) (s\<lparr>thread := tid\<rparr>)"

text \<open>From \<open>strlen\<close> to \<open>pthread_mutex_unlock\<close>: what is done with a line that is kept.\<close>

definition dispatch :: "line_ev \<Rightarrow> state \<Rightarrow> fault + state" where
  "dispatch e s =
     (let len = strlen (l_line e);
          s1 = emit Mutex_lock s
      in case for_events (l_broken e) (l_line e) len all_events s1 of
           Inl f \<Rightarrow> Inl f
         | Inr s2 \<Rightarrow>
             (let s3 = (if thread s2 < 0 \<and> fd (log_events s2 HIDE_EVENT) < 0
                        then xpthread_create (l_tid e) s2 else s2)
              in Inr (emit Mutex_unlock s3)))"

text \<open>\<open>line[0] == '-'\<close>; the first byte of an empty string is its NUL.\<close>

definition is_continuation :: "string \<Rightarrow> bool" where
  "is_continuation line = (case line of [] \<Rightarrow> False | c # _ \<Rightarrow> c = CHR ''-'')"

text \<open>
  The inner \<open>while (fgets(...))\<close>: the list is what the stream delivers before its end
  of file.
\<close>

fun read_lines :: "int \<Rightarrow> line_ev list \<Rightarrow> state \<Rightarrow> fault + state" where
  "read_lines log_pid [] s = Inr s"
| "read_lines log_pid (e # es) s =
     (if is_continuation (l_line e) then read_lines log_pid es s
      else
        (case dispatch e s of
           Inl f \<Rightarrow> Inl f
         | Inr s1 \<Rightarrow>
             (let s2 = emit (Kill log_pid 0) s1 in
              if l_kill e \<noteq> 0 then Inr s2 else read_lines log_pid es s2)))"

text \<open>The loop that disables all services.\<close>

fun disable_events :: "event_id list \<Rightarrow> state \<Rightarrow> state" where
  "disable_events [] s = s"
| "disable_events (i # is) s =
     disable_events is (set_fd i (- 1) (emit (Close (fd (log_events s i))) s))"

definition logcat_argv :: "string list" where
  "logcat_argv =
     [''/system/bin/logcat'', ''-b'', ''events'', ''-b'', ''main'', ''-b'', ''crash'',
      ''-v'', ''threadtime'', ''-s'', ''am_proc_start'', ''Magisk'', ''*:F'']"

text \<open>
  One pass of the outer loop: a run of logcat, the lines it delivers, and the answers to
  the probe that follows it.
\<close>

record run =
  r_pid :: int
  r_fd :: int
  r_lines :: "line_ev list"
  r_probe :: probe_env

datatype outcome =
    Returned state
  | Out_of_input state
  | Hung_in_probe state
  | Faulted fault
  | Exited int

text \<open>
  The outer \<open>while (1)\<close> of \<open>log_daemon\<close>, from the state the set-up leaves.  It is
  followed for as many runs of logcat as the environment is given for; \<open>Out_of_input\<close>
  is a loop that is still running when they are used up.
\<close>

fun log_daemon_loop :: "run list \<Rightarrow> state \<Rightarrow> outcome" where
  "log_daemon_loop [] s =
     (if loggable s = 0 then Returned (disable_events all_events s) else Out_of_input s)"
| "log_daemon_loop (r # rs) s =
     (if loggable s = 0 then Returned (disable_events all_events s)
      else
        (let s1 = emit (Exec_command logcat_argv (r_pid r) (r_fd r)) s in
         case read_lines (r_pid r) (r_lines r) s1 of
           Inl f \<Rightarrow> Faulted f
         | Inr s2 \<Rightarrow>
             (let s3 = emit (Fclose (r_fd r)) s2;
                  s4 = emit (Kill (r_pid r) SIGTERM) s3;
                  s5 = emit (Waitpid (r_pid r)) s4
              in case test_logcat (r_probe r) s5 of
                   None \<Rightarrow> Hung_in_probe s5
                 | Some s6 \<Rightarrow> log_daemon_loop rs s6)))"

text \<open>
  The set-up of \<open>log_daemon\<close> that touches the table: the log file is opened into the
  persist slot and, in a build with \<open>MAGISK_DEBUG\<close>, the debug log into the debug slot.
\<close>

definition log_daemon_setup :: "bool \<Rightarrow> int \<Rightarrow> int \<Rightarrow> state \<Rightarrow> state" where
  "log_daemon_setup magisk_debug log_fd debug_fd s =
     (let s1 = set_fd LOG_EVENT log_fd s in
      if magisk_debug then set_fd DEBUG_EVENT debug_fd s1 else s1)"

text \<open>
  \<open>log_daemon\<close>: the process exits with status 1 when \<open>xbind\<close> does not return 0, and
  runs the set-up and the loop otherwise.
\<close>

definition log_daemon :: "bool \<Rightarrow> int \<Rightarrow> int \<Rightarrow> int \<Rightarrow> run list \<Rightarrow> state \<Rightarrow> outcome" where
  "log_daemon magisk_debug xbind_result log_fd debug_fd runs s =
     (if xbind_result \<noteq> 0 then Exited 1
      else log_daemon_loop runs (log_daemon_setup magisk_debug log_fd debug_fd s))"

text \<open>\<open>monitor_logs\<close>; \<open>do_nothing\<close> is the value of the constant \<open>DO_NOTHING\<close>.\<close>

definition monitor_logs :: "int \<Rightarrow> probe_env \<Rightarrow> int \<Rightarrow> state \<Rightarrow> state option" where
  "monitor_logs do_nothing e cfd s =
     (case test_logcat e s of
        None \<Rightarrow> None
      | Some s1 \<Rightarrow>
          if loggable s1 \<noteq> 0 then
            Some (emit (Close cfd) (emit (Write_int cfd do_nothing) (emit (Connect_daemon2 cfd) s1)))
          else Some s1)"

section \<open>The two tasks together\<close>

text \<open>
  The acceptor one action at a time: a connection that is turned away, the connection
  that is registered (the store is made between taking and releasing the guard), and the
  last statements of the thread, \<open>thread = -1; return NULL\<close>, which come after the
  guard is released.
\<close>

definition acceptor_reject :: "int \<Rightarrow> int \<Rightarrow> state \<Rightarrow> state" where
  "acceptor_reject cfd code s = emit (Close cfd) (emit (Read_int cfd code) (emit (Accept4 cfd) s))"

definition acceptor_register :: "int \<Rightarrow> int \<Rightarrow> state \<Rightarrow> state" where
  "acceptor_register cfd code s =
     emit Mutex_unlock
       (set_fd HIDE_EVENT cfd (emit Mutex_lock (emit (Read_int cfd code) (emit (Accept4 cfd) s))))"

definition acceptor_exit :: "state \<Rightarrow> state" where
  "acceptor_exit s = s\<lparr>thread := - 1\<rparr>"

text \<open>The number of threads created so far.\<close>

fun count_spawn :: "event list \<Rightarrow> nat" where
  "count_spawn [] = 0"
| "count_spawn (Pthread_create t # evs) = Suc (count_spawn evs)"
| "count_spawn (ev # evs) = count_spawn evs"

text \<open>The thread ids that \<open>xpthread_create\<close> stored, in order.\<close>

fun spawned_ids :: "event list \<Rightarrow> int list" where
  "spawned_ids [] = []"
| "spawned_ids (Pthread_create t # evs) = t # spawned_ids evs"
| "spawned_ids (ev # evs) = spawned_ids evs"

text \<open>
  Where an acceptor thread that has been created and has not returned stands: before
  its registration, or after it and before it resets \<open>thread\<close>.
\<close>

datatype acceptor_pc = Accepting | Registered

text \<open>
  The steps of the process: the global state and the acceptor threads that are
  outstanding.  The dispatch of a line is one step, as is the registration by an
  acceptor: both run under the guard.  A dispatch that creates a thread adds an
  acceptor, whatever thread id the environment hands out.  The broken-pipe handler may
  also run on its own, for a signal that no write of the dispatch raised.
\<close>

inductive step :: "int \<Rightarrow> state \<times> acceptor_pc list \<Rightarrow> state \<times> acceptor_pc list \<Rightarrow> bool"
  for hide_connect :: int where
  Setup: "step hide_connect (s, accs) (log_daemon_setup magisk_debug log_fd debug_fd s, accs)"
| Start: "step hide_connect (s, accs) (emit (Exec_command logcat_argv pid f) s, accs)"
| Dispatch:
    "dispatch e s = Inr s' \<Longrightarrow>
     step hide_connect (s, accs)
       (s', accs @ replicate (count_spawn (trace s') - count_spawn (trace s)) Accepting)"
| Alive: "step hide_connect (s, accs) (emit (Kill pid 0) s, accs)"
| Cleanup:
    "step hide_connect (s, accs)
       (emit (Waitpid pid) (emit (Kill pid SIGTERM) (emit (Fclose f) s)), accs)"
| Probe: "test_logcat pe s = Some s' \<Longrightarrow> step hide_connect (s, accs) (s', accs)"
| Disable: "loggable s = 0 \<Longrightarrow> step hide_connect (s, accs) (disable_events all_events s, accs)"
| Monitor:
    "monitor_logs do_nothing pe cfd s = Some s' \<Longrightarrow> step hide_connect (s, accs) (s', accs)"
| Sigpipe: "step hide_connect (s, accs) (sigpipe_handler s, accs)"
| Reject:
    "accs = xs @ Accepting # ys \<Longrightarrow> code \<noteq> hide_connect \<Longrightarrow>
     step hide_connect (s, accs) (acceptor_reject cfd code s, accs)"
| Register:
    "accs = xs @ Accepting # ys \<Longrightarrow>
     step hide_connect (s, accs) (acceptor_register cfd hide_connect s, xs @ Registered # ys)"
| Exit:
    "accs = xs @ Registered # ys \<Longrightarrow>
     step hide_connect (s, accs) (acceptor_exit s, xs @ ys)"

inductive reachable :: "int \<Rightarrow> state \<times> acceptor_pc list \<Rightarrow> bool"
  for hide_connect :: int where
  Init: "reachable hide_connect (init_state, [])"
| Step: "reachable hide_connect c \<Longrightarrow> step hide_connect c c' \<Longrightarrow> reachable hide_connect c'"

section \<open>Reading the trace\<close>

text \<open>What was handed to \<open>write\<close>, in order: the descriptor and the bytes.\<close>

fun writes_of :: "event list \<Rightarrow> (int \<times> string) list" where
  "writes_of [] = []"
| "writes_of (Write f d # evs) = (f, d) # writes_of evs"
| "writes_of (ev # evs) = writes_of evs"

text \<open>The events of the loop over the table: writes, and the handler's close and store.\<close>

fun io_event :: "event \<Rightarrow> bool" where
  "io_event (Write f d) = True"
| "io_event (Close f) = True"
| "io_event (Store_fd i v) = True"
| "io_event ev = False"

text \<open>What one visit of the \<open>for\<close> loop leaves of the state.\<close>

definition visit_ok :: "state \<Rightarrow> state \<Rightarrow> bool" where
  "visit_ok s s' =
     (loggable s' = loggable s \<and> thread s' = thread s \<and>
      log_events s' LOG_EVENT = log_events s LOG_EVENT \<and>
      log_events s' DEBUG_EVENT = log_events s DEBUG_EVENT \<and>
      filter_fn (log_events s' HIDE_EVENT) = filter_fn (log_events s HIDE_EVENT) \<and>
      (fd (log_events s' HIDE_EVENT) = fd (log_events s HIDE_EVENT) \<or>
       fd (log_events s' HIDE_EVENT) = - 1))"

section \<open>Facts about the C string functions\<close>

lemma strstr_Some_iff:
  "strstr hay needle = Some i \<longleftrightarrow>
     i \<le> length hay \<and> prefix needle (drop i hay) \<and> (\<forall>j<i. \<not> prefix needle (drop j hay))"
proof (induction hay arbitrary: i)
  case Nil
  then show ?case by auto
next
  case (Cons c cs)
  show ?case
  proof (cases "prefix needle (c # cs)")
    case True
    then show ?thesis by auto
  next
    case False
    show ?thesis
    proof (cases i)
      case 0
      with False show ?thesis by simp
    next
      case (Suc k)
      have "(\<forall>j<Suc k. \<not> prefix needle (drop j (c # cs))) \<longleftrightarrow>
            (\<forall>j<k. \<not> prefix needle (drop j cs))"
        using False by (simp add: All_less_Suc2)
      with False Suc Cons.IH [of k] show ?thesis by auto
    qed
  qed
qed

lemma strstr_None_iff: "strstr hay needle = None \<longleftrightarrow> \<not> sublist needle hay"
  by (induction hay) (auto simp: sublist_Cons_right)

lemma strstr_zero_iff: "strstr hay needle = Some 0 \<longleftrightarrow> prefix needle hay"
  by (simp add: strstr_Some_iff)

lemma strstr_Some_length:
  "strstr hay needle = Some i \<Longrightarrow> i + length needle \<le> length hay"
proof -
  assume "strstr hay needle = Some i"
  then have "i \<le> length hay" and "prefix needle (drop i hay)"
    by (simp_all add: strstr_Some_iff)
  then show ?thesis
    using prefix_length_le by fastforce
qed

lemma char_at_before: "char_at buf (- 1) = Inl OutOfBounds"
  by (simp add: char_at_def)

section \<open>The filters\<close>

lemma magisk_log_filter_None:
  "strstr log '' Magisk'' = None \<Longrightarrow> magisk_log_filter log = Inr False"
  by (simp add: magisk_log_filter_def)

lemma magisk_log_filter_zero:
  "strstr log '' Magisk'' = Some 0 \<Longrightarrow> magisk_log_filter log = Inl OutOfBounds"
  by (simp add: magisk_log_filter_def char_at_before)

text \<open>
  Where the tag is first found at index 1 or later, the filter is the test the
  specification describes: the character before the first occurrence is neither
  \<open>D\<close> nor \<open>V\<close>.
\<close>

lemma magisk_log_filter_Suc:
  assumes "strstr log '' Magisk'' = Some (Suc k)"
  shows "magisk_log_filter log = Inr (log ! k \<noteq> CHR ''D'' \<and> log ! k \<noteq> CHR ''V'')"
proof -
  from assms have "Suc k + length '' Magisk'' \<le> length log"
    by (rule strstr_Some_length)
  then have "k < length log" by simp
  then have "char_at log (int (Suc k) - 1) = Inr (log ! k)"
    by (simp add: char_at_def)
  with assms show ?thesis
    by (simp add: magisk_log_filter_def)
qed

lemma magisk_log_filter_info_line:
  "magisk_log_filter ''01-01 00:00:00.000  1234  1234 I Magisk  : hello\<newline>'' = Inr True"
  by (simp add: magisk_log_filter_def char_at_def)

lemma magisk_log_filter_debug_line:
  "magisk_log_filter ''01-01 00:00:00.000  1234  1234 D Magisk  : hello\<newline>'' = Inr False"
  by (simp add: magisk_log_filter_def char_at_def)

text \<open>
  C7 (persist filter).  The claim gives the filter a truth value on every line.  On a
  line that begins with the tag, \<open>strstr\<close> returns the start of the buffer and
  \<open>ss[-1]\<close> is read from before it: the filter has no value there.
\<close>

theorem magisk_log_filter_at_line_start:
  "magisk_log_filter '' Magisk: boot\<newline>'' = Inl OutOfBounds"
  by (simp add: magisk_log_filter_def char_at_def)

text \<open>
  C8 (debug filter is the complement of the hide filter).  On every line both filters
  return a value, the hide filter whether \<open>am_proc_start\<close> occurs in the line and the
  debug filter the negation of that; so the debug filter returns true exactly when the
  hide filter returns false.
\<close>

theorem debug_filter_complements_hide_filter:
  "am_proc_start_filter line = Inr (sublist ''am_proc_start'' line) \<and>
   magisk_debug_log_filter line = Inr (\<not> sublist ''am_proc_start'' line) \<and>
   (magisk_debug_log_filter line = Inr True) = (am_proc_start_filter line = Inr False)"
  by (auto simp: am_proc_start_filter_def magisk_debug_log_filter_def strstr_None_iff)

text \<open>
  C10 (the read before the first occurrence).  The persist filter faults with a read
  out of bounds exactly when the first occurrence of the tag is at index 0, that is when
  the line begins with the tag; on every other line it returns a value.
\<close>

theorem magisk_log_filter_out_of_bounds:
  "(magisk_log_filter line = Inl OutOfBounds) = (strstr line '' Magisk'' = Some 0) \<and>
   (strstr line '' Magisk'' = Some 0) = prefix '' Magisk'' line \<and>
   (\<exists>b. magisk_log_filter line = Inr b) = (strstr line '' Magisk'' \<noteq> Some 0)"
proof -
  have "(magisk_log_filter line = Inl OutOfBounds) = (strstr line '' Magisk'' = Some 0)"
  proof (cases "strstr line '' Magisk''")
    case None
    then show ?thesis by (simp add: magisk_log_filter_None)
  next
    case (Some i)
    then show ?thesis
      by (cases i) (simp_all add: magisk_log_filter_zero magisk_log_filter_Suc)
  qed
  moreover have "(\<exists>b. magisk_log_filter line = Inr b) = (magisk_log_filter line \<noteq> Inl OutOfBounds)"
    by (cases "magisk_log_filter line") (auto intro: fault.exhaust)
  ultimately show ?thesis
    by (simp add: strstr_zero_iff)
qed

section \<open>Continuation lines\<close>

lemma is_continuation_iff: "is_continuation line = (\<exists>rest. line = CHR ''-'' # rest)"
  by (cases line) (auto simp: is_continuation_def)

text \<open>
  C9 (continuation lines).  A line is a continuation line exactly when its first
  character is a hyphen, and the reading loop behaves on any stream as it does on the
  stream with the continuation lines removed: for such a line no filter is evaluated,
  nothing is written and the guard is not taken.
\<close>

theorem continuation_lines_are_skipped:
  "is_continuation line = (\<exists>rest. line = CHR ''-'' # rest) \<and>
   read_lines log_pid es s =
     read_lines log_pid (filter (\<lambda>e. \<not> is_continuation (l_line e)) es) s"
proof
  show "is_continuation line = (\<exists>rest. line = CHR ''-'' # rest)"
    by (rule is_continuation_iff)
next
  show "read_lines log_pid es s =
     read_lines log_pid (filter (\<lambda>e. \<not> is_continuation (l_line e)) es) s"
  proof (induction es arbitrary: s)
    case Nil
    show ?case by simp
  next
    case (Cons e es)
    show ?case
    proof (cases "is_continuation (l_line e)")
      case True
      with Cons.IH show ?thesis by simp
    next
      case False
      with Cons.IH show ?thesis
        by (simp add: Let_def split: sum.splits)
    qed
  qed
qed

section \<open>The state after each operation\<close>

lemma writes_of_append [simp]: "writes_of (xs @ ys) = writes_of xs @ writes_of ys"
  by (induction xs rule: writes_of.induct) simp_all

lemma all_event_id: "(\<forall>i. P i) = (P HIDE_EVENT \<and> P LOG_EVENT \<and> P DEBUG_EVENT)"
proof
  assume "\<forall>i. P i"
  then show "P HIDE_EVENT \<and> P LOG_EVENT \<and> P DEBUG_EVENT" by simp
next
  assume h: "P HIDE_EVENT \<and> P LOG_EVENT \<and> P DEBUG_EVENT"
  show "\<forall>i. P i"
  proof
    fix i show "P i" using h by (cases i) simp_all
  qed
qed

lemma loggable_emit [simp]: "loggable (emit ev s) = loggable s"
  by (simp add: emit_def)

lemma thread_emit [simp]: "thread (emit ev s) = thread s"
  by (simp add: emit_def)

lemma log_events_emit [simp]: "log_events (emit ev s) = log_events s"
  by (simp add: emit_def)

lemma trace_emit [simp]: "trace (emit ev s) = trace s @ [ev]"
  by (simp add: emit_def)

lemma loggable_set_fd [simp]: "loggable (set_fd i v s) = loggable s"
  by (simp add: set_fd_def)

lemma thread_set_fd [simp]: "thread (set_fd i v s) = thread s"
  by (simp add: set_fd_def)

lemma log_events_set_fd [simp]:
  "log_events (set_fd i v s) = (log_events s)(i := (log_events s i)\<lparr>fd := v\<rparr>)"
  by (simp add: set_fd_def)

lemma trace_set_fd [simp]: "trace (set_fd i v s) = trace s @ [Store_fd i v]"
  by (simp add: set_fd_def)

lemma loggable_sigpipe_handler [simp]: "loggable (sigpipe_handler s) = loggable s"
  by (simp add: sigpipe_handler_def)

lemma thread_sigpipe_handler [simp]: "thread (sigpipe_handler s) = thread s"
  by (simp add: sigpipe_handler_def)

lemma log_events_sigpipe_handler [simp]:
  "log_events (sigpipe_handler s) =
     (log_events s)(HIDE_EVENT := (log_events s HIDE_EVENT)\<lparr>fd := - 1\<rparr>)"
  by (simp add: sigpipe_handler_def)

lemma trace_sigpipe_handler [simp]:
  "trace (sigpipe_handler s) =
     trace s @ [Close (fd (log_events s HIDE_EVENT)), Store_fd HIDE_EVENT (- 1)]"
  by (simp add: sigpipe_handler_def)

lemma loggable_write_sys [simp]: "loggable (write_sys B f buf n s) = loggable s"
  by (simp add: write_sys_def Let_def)

lemma thread_write_sys [simp]: "thread (write_sys B f buf n s) = thread s"
  by (simp add: write_sys_def Let_def)

lemma log_events_write_sys:
  "log_events (write_sys B f buf n s) =
     (if f \<in> B then (log_events s)(HIDE_EVENT := (log_events s HIDE_EVENT)\<lparr>fd := - 1\<rparr>)
      else log_events s)"
  by (simp add: write_sys_def Let_def)

lemma trace_write_sys:
  "trace (write_sys B f buf n s) =
     trace s @ Write f (take n buf) #
       (if f \<in> B then [Close (fd (log_events s HIDE_EVENT)), Store_fd HIDE_EVENT (- 1)] else [])"
  by (simp add: write_sys_def Let_def)

lemma visit_ok_refl: "visit_ok s s"
  by (simp add: visit_ok_def)

lemma visit_ok_trans: "visit_ok s s1 \<Longrightarrow> visit_ok s1 s2 \<Longrightarrow> visit_ok s s2"
  by (auto simp: visit_ok_def)

lemma visit_ok_write_sys: "visit_ok s (write_sys B f buf n s)"
  by (simp add: visit_ok_def log_events_write_sys)

lemma for_events_visit_ok:
  "for_events B line n is s = Inr s' \<Longrightarrow> visit_ok s s'"
proof (induction "is" arbitrary: s)
  case Nil
  then show ?case by (simp add: visit_ok_refl)
next
  case (Cons i "is")
  show ?case
  proof (cases "0 < fd (log_events s i) \<and> filter_fn (log_events s i) line = Inr True")
    case True
    with Cons.prems have "for_events B line n is (write_sys B (fd (log_events s i)) line n s) = Inr s'"
      by simp
    then have "visit_ok (write_sys B (fd (log_events s i)) line n s) s'"
      by (rule Cons.IH)
    with visit_ok_write_sys show ?thesis by (rule visit_ok_trans)
  next
    case False
    with Cons.prems have "for_events B line n is s = Inr s'"
      by (auto split: if_splits sum.splits bool.splits)
    then show ?thesis by (rule Cons.IH)
  qed
qed

lemma for_events_trace_tail:
  assumes "for_events B line n is s = Inr s'" and "HIDE_EVENT \<notin> set is"
  shows "\<exists>evs. trace s' = trace s @ evs \<and> list_all io_event evs \<and>
           writes_of evs =
             concat (map (\<lambda>i. if 0 < fd (log_events s i) \<and> filter_fn (log_events s i) line = Inr True
                               then [(fd (log_events s i), take n line)] else []) is)"
  using assms
proof (induction "is" arbitrary: s)
  case Nil
  then show ?case by simp
next
  case (Cons i "is")
  let ?exp = "\<lambda>s i. if 0 < fd (log_events s i) \<and> filter_fn (log_events s i) line = Inr True
                       then [(fd (log_events s i), take n line)] else []"
  from Cons.prems have notin: "HIDE_EVENT \<notin> set is" and neq: "i \<noteq> HIDE_EVENT"
    by auto
  show ?case
  proof (cases "0 < fd (log_events s i) \<and> filter_fn (log_events s i) line = Inr True")
    case True
    let ?s1 = "write_sys B (fd (log_events s i)) line n s"
    from True Cons.prems have "for_events B line n is ?s1 = Inr s'"
      by simp
    from Cons.IH [OF this notin] obtain evs where
      tr: "trace s' = trace ?s1 @ evs" and io: "list_all io_event evs" and
      wr: "writes_of evs = concat (map (?exp ?s1) is)"
      by blast
    have same: "map (?exp ?s1) is = map (?exp s) is"
      using notin by (intro map_cong) (auto simp: log_events_write_sys)
    let ?evs = "Write (fd (log_events s i)) (take n line) #
       (if fd (log_events s i) \<in> B
        then [Close (fd (log_events s HIDE_EVENT)), Store_fd HIDE_EVENT (- 1)] else []) @ evs"
    have "trace s' = trace s @ ?evs"
      using tr by (simp add: trace_write_sys)
    moreover have "list_all io_event ?evs"
      using io by simp
    moreover have "writes_of ?evs = concat (map (?exp s) (i # is))"
      using wr same True by simp
    ultimately show ?thesis by blast
  next
    case False
    with Cons.prems have "for_events B line n is s = Inr s'"
      by (auto split: if_splits sum.splits bool.splits)
    from Cons.IH [OF this notin] obtain evs where
      "trace s' = trace s @ evs" and "list_all io_event evs" and
      "writes_of evs = concat (map (?exp s) is)"
      by blast
    with False show ?thesis by auto
  qed
qed

lemma for_events_trace:
  assumes "for_events B line n all_events s = Inr s'"
  shows "\<exists>evs. trace s' = trace s @ evs \<and> list_all io_event evs \<and>
           writes_of evs =
             concat (map (\<lambda>i. if 0 < fd (log_events s i) \<and> filter_fn (log_events s i) line = Inr True
                               then [(fd (log_events s i), take n line)] else []) all_events)"
proof -
  let ?exp = "\<lambda>s i. if 0 < fd (log_events s i) \<and> filter_fn (log_events s i) line = Inr True
                       then [(fd (log_events s i), take n line)] else []"
  let ?tl = "[LOG_EVENT, DEBUG_EVENT]"
  have notin: "HIDE_EVENT \<notin> set ?tl" by simp
  show ?thesis
  proof (cases "0 < fd (log_events s HIDE_EVENT) \<and> filter_fn (log_events s HIDE_EVENT) line = Inr True")
    case True
    let ?f = "fd (log_events s HIDE_EVENT)"
    let ?s1 = "write_sys B ?f line n s"
    from True assms have "for_events B line n ?tl ?s1 = Inr s'"
      by (simp add: all_events_def)
    from for_events_trace_tail [OF this notin] obtain evs where
      tr: "trace s' = trace ?s1 @ evs" and io: "list_all io_event evs" and
      wr: "writes_of evs = concat (map (?exp ?s1) ?tl)"
      by blast
    have same: "map (?exp ?s1) ?tl = map (?exp s) ?tl"
      by (simp add: log_events_write_sys)
    let ?evs = "Write ?f (take n line) #
       (if ?f \<in> B then [Close ?f, Store_fd HIDE_EVENT (- 1)] else []) @ evs"
    have "trace s' = trace s @ ?evs"
      using tr by (simp add: trace_write_sys)
    moreover have "list_all io_event ?evs"
      using io by simp
    moreover have "writes_of ?evs = concat (map (?exp s) all_events)"
      using wr same True by (simp add: all_events_def)
    ultimately show ?thesis by blast
  next
    case False
    with assms have "for_events B line n ?tl s = Inr s'"
      by (auto simp: all_events_def split: if_splits sum.splits bool.splits)
    from for_events_trace_tail [OF this notin] obtain evs where
      "trace s' = trace s @ evs" and "list_all io_event evs" and
      "writes_of evs = concat (map (?exp s) ?tl)"
      by blast
    with False show ?thesis by (auto simp: all_events_def)
  qed
qed

lemma for_events_returns:
  assumes "\<forall>i. 0 < fd (log_events s i) \<longrightarrow> (\<exists>b. filter_fn (log_events s i) line = Inr b)"
  shows "\<exists>s'. for_events B line n is s = Inr s'"
  using assms
proof (induction "is" arbitrary: s)
  case Nil
  show ?case by simp
next
  case (Cons i "is")
  show ?case
  proof (cases "0 < fd (log_events s i)")
    case False
    with Cons.IH [OF Cons.prems] show ?thesis by simp
  next
    case True
    with Cons.prems obtain b where b: "filter_fn (log_events s i) line = Inr b"
      by blast
    show ?thesis
    proof (cases b)
      case False
      with True b Cons.IH [OF Cons.prems] show ?thesis by simp
    next
      case bt: True
      let ?s1 = "write_sys B (fd (log_events s i)) line n s"
      have "\<forall>j. 0 < fd (log_events ?s1 j) \<longrightarrow> (\<exists>b. filter_fn (log_events ?s1 j) line = Inr b)"
        using Cons.prems by (auto simp: log_events_write_sys)
      from Cons.IH [OF this] True b bt show ?thesis by simp
    qed
  qed
qed

lemma dispatch_Inr:
  assumes "dispatch e s = Inr s'"
  shows "\<exists>s2. for_events (l_broken e) (l_line e) (strlen (l_line e)) all_events (emit Mutex_lock s) = Inr s2 \<and>
           s' = emit Mutex_unlock
                  (if thread s2 < 0 \<and> fd (log_events s2 HIDE_EVENT) < 0
                   then xpthread_create (l_tid e) s2 else s2)"
  using assms by (auto simp: dispatch_def Let_def split: sum.splits)

lemma dispatch_returns:
  assumes "\<forall>i. 0 < fd (log_events s i) \<longrightarrow> (\<exists>b. filter_fn (log_events s i) (l_line e) = Inr b)"
  shows "\<exists>s'. dispatch e s = Inr s'"
proof -
  from assms have
    "\<forall>i. 0 < fd (log_events (emit Mutex_lock s) i) \<longrightarrow>
       (\<exists>b. filter_fn (log_events (emit Mutex_lock s) i) (l_line e) = Inr b)"
    by simp
  from for_events_returns [OF this] obtain s2 where
    "for_events (l_broken e) (l_line e) (strlen (l_line e)) all_events (emit Mutex_lock s) = Inr s2"
    by blast
  then show ?thesis
    by (simp add: dispatch_def Let_def)
qed

lemma log_events_xpthread_create [simp]: "log_events (xpthread_create t s) = log_events s"
  by (simp add: xpthread_create_def)

lemma loggable_xpthread_create [simp]: "loggable (xpthread_create t s) = loggable s"
  by (simp add: xpthread_create_def)

lemma thread_xpthread_create [simp]: "thread (xpthread_create t s) = t"
  by (simp add: xpthread_create_def)

lemma trace_xpthread_create [simp]:
  "trace (xpthread_create t s) = trace s @ [Pthread_create t]"
  by (simp add: xpthread_create_def)

lemma dispatch_effect:
  assumes "dispatch e s = Inr s'"
  shows "loggable s' = loggable s"
    and "log_events s' LOG_EVENT = log_events s LOG_EVENT"
    and "log_events s' DEBUG_EVENT = log_events s DEBUG_EVENT"
    and "filter_fn (log_events s' HIDE_EVENT) = filter_fn (log_events s HIDE_EVENT)"
    and "fd (log_events s' HIDE_EVENT) = fd (log_events s HIDE_EVENT) \<or>
         fd (log_events s' HIDE_EVENT) = - 1"
    and "thread s' =
           (if thread s < 0 \<and> fd (log_events s' HIDE_EVENT) < 0 then l_tid e else thread s)"
proof -
  from dispatch_Inr [OF assms] obtain s2 where
    run: "for_events (l_broken e) (l_line e) (strlen (l_line e)) all_events (emit Mutex_lock s) = Inr s2"
    and s': "s' = emit Mutex_unlock
                  (if thread s2 < 0 \<and> fd (log_events s2 HIDE_EVENT) < 0
                   then xpthread_create (l_tid e) s2 else s2)"
    by blast
  from for_events_visit_ok [OF run] have ok: "visit_ok (emit Mutex_lock s) s2" .
  have le: "log_events s' = log_events s2"
    using s' by simp
  show "loggable s' = loggable s"
    using ok s' by (simp add: visit_ok_def)
  show "log_events s' LOG_EVENT = log_events s LOG_EVENT"
    using ok le by (simp add: visit_ok_def)
  show "log_events s' DEBUG_EVENT = log_events s DEBUG_EVENT"
    using ok le by (simp add: visit_ok_def)
  show "filter_fn (log_events s' HIDE_EVENT) = filter_fn (log_events s HIDE_EVENT)"
    using ok le by (simp add: visit_ok_def)
  show "fd (log_events s' HIDE_EVENT) = fd (log_events s HIDE_EVENT) \<or>
         fd (log_events s' HIDE_EVENT) = - 1"
    using ok le by (simp add: visit_ok_def)
  have "thread s2 = thread s"
    using ok by (simp add: visit_ok_def)
  then show "thread s' =
           (if thread s < 0 \<and> fd (log_events s' HIDE_EVENT) < 0 then l_tid e else thread s)"
    using s' by simp
qed

lemma dispatch_trace:
  assumes "dispatch e s = Inr s'"
  shows "\<exists>evs. trace s' =
             trace s @ Mutex_lock # evs @
               (if thread s < 0 \<and> fd (log_events s' HIDE_EVENT) < 0
                then [Pthread_create (l_tid e)] else []) @ [Mutex_unlock] \<and>
           list_all io_event evs \<and>
           writes_of evs =
             concat (map (\<lambda>i. if 0 < fd (log_events s i) \<and>
                                  filter_fn (log_events s i) (l_line e) = Inr True
                               then [(fd (log_events s i), l_line e)] else []) all_events)"
proof -
  from dispatch_Inr [OF assms] obtain s2 where
    run: "for_events (l_broken e) (l_line e) (strlen (l_line e)) all_events (emit Mutex_lock s) = Inr s2"
    and s': "s' = emit Mutex_unlock
                  (if thread s2 < 0 \<and> fd (log_events s2 HIDE_EVENT) < 0
                   then xpthread_create (l_tid e) s2 else s2)"
    by blast
  from for_events_visit_ok [OF run] have "visit_ok (emit Mutex_lock s) s2" .
  then have th: "thread s2 = thread s"
    by (simp add: visit_ok_def)
  have le: "log_events s' = log_events s2"
    using s' by simp
  from for_events_trace [OF run] obtain evs where
    tr: "trace s2 = trace s @ Mutex_lock # evs" and io: "list_all io_event evs" and
    wr: "writes_of evs =
           concat (map (\<lambda>i. if 0 < fd (log_events s i) \<and>
                                filter_fn (log_events s i) (l_line e) = Inr True
                             then [(fd (log_events s i), l_line e)] else []) all_events)"
    by (auto simp: strlen_def cong: if_cong)
  have "trace s' =
             trace s @ Mutex_lock # evs @
               (if thread s < 0 \<and> fd (log_events s' HIDE_EVENT) < 0
                then [Pthread_create (l_tid e)] else []) @ [Mutex_unlock]"
    using s' tr th by simp
  with io wr show ?thesis by blast
qed

lemma dispatch_hide_broken:
  assumes run: "dispatch e s = Inr s'"
    and present: "0 < fd (log_events s HIDE_EVENT)"
    and match: "filter_fn (log_events s HIDE_EVENT) (l_line e) = Inr True"
    and broken: "fd (log_events s HIDE_EVENT) \<in> l_broken e"
  shows "fd (log_events s' HIDE_EVENT) = - 1"
proof -
  let ?s1 = "write_sys (l_broken e) (fd (log_events s HIDE_EVENT)) (l_line e)
               (strlen (l_line e)) (emit Mutex_lock s)"
  from dispatch_Inr [OF run] obtain s2 where
    loop: "for_events (l_broken e) (l_line e) (strlen (l_line e)) all_events (emit Mutex_lock s) = Inr s2"
    and s': "s' = emit Mutex_unlock
                  (if thread s2 < 0 \<and> fd (log_events s2 HIDE_EVENT) < 0
                   then xpthread_create (l_tid e) s2 else s2)"
    by blast
  from loop present match have
    "for_events (l_broken e) (l_line e) (strlen (l_line e)) [LOG_EVENT, DEBUG_EVENT] ?s1 = Inr s2"
    by (simp add: all_events_def)
  then have "visit_ok ?s1 s2"
    by (rule for_events_visit_ok)
  moreover have "fd (log_events ?s1 HIDE_EVENT) = - 1"
    using broken by (simp add: log_events_write_sys)
  ultimately have "fd (log_events s2 HIDE_EVENT) = - 1"
    by (auto simp: visit_ok_def)
  then show ?thesis
    using s' by simp
qed

lemma dispatch_hide_broken_trace:
  assumes run: "dispatch e s = Inr s'"
    and present: "0 < fd (log_events s HIDE_EVENT)"
    and match: "filter_fn (log_events s HIDE_EVENT) (l_line e) = Inr True"
    and broken: "fd (log_events s HIDE_EVENT) \<in> l_broken e"
  shows "\<exists>rest. trace s' =
           trace s @ Mutex_lock # Write (fd (log_events s HIDE_EVENT)) (l_line e) #
             Close (fd (log_events s HIDE_EVENT)) # Store_fd HIDE_EVENT (- 1) # rest"
proof -
  let ?f = "fd (log_events s HIDE_EVENT)"
  let ?s1 = "write_sys (l_broken e) ?f (l_line e) (strlen (l_line e)) (emit Mutex_lock s)"
  from dispatch_Inr [OF run] obtain s2 where
    loop: "for_events (l_broken e) (l_line e) (strlen (l_line e)) all_events (emit Mutex_lock s) = Inr s2"
    and s': "s' = emit Mutex_unlock
                  (if thread s2 < 0 \<and> fd (log_events s2 HIDE_EVENT) < 0
                   then xpthread_create (l_tid e) s2 else s2)"
    by blast
  from loop present match have
    "for_events (l_broken e) (l_line e) (strlen (l_line e)) [LOG_EVENT, DEBUG_EVENT] ?s1 = Inr s2"
    by (simp add: all_events_def)
  from for_events_trace_tail [OF this] obtain evs where "trace s2 = trace ?s1 @ evs"
    by auto
  moreover have "trace ?s1 =
      trace s @ [Mutex_lock, Write ?f (l_line e), Close ?f, Store_fd HIDE_EVENT (- 1)]"
    using broken by (simp add: trace_write_sys strlen_def)
  ultimately have "trace s2 =
      trace s @ Mutex_lock # Write ?f (l_line e) # Close ?f # Store_fd HIDE_EVENT (- 1) # evs"
    by simp
  with s' show ?thesis
    by (cases "thread s2 < 0 \<and> fd (log_events s2 HIDE_EVENT) < 0") simp_all
qed

lemma ex_bool: "(\<exists>b. b) = True"
  by blast

section \<open>Dispatch of one line\<close>

text \<open>
  C1 (dispatch).  Let every slot with a present target (\<open>fd > 0\<close>, as the loop tests it)
  have a filter that returns a value on the line.  Then the dispatch of the line returns,
  it only appends to the trace, and the writes it makes are, in the order of the table,
  one write of the whole line to the descriptor of each slot whose target is present and
  whose filter returns true, and no other write: a slot whose filter returns false, or
  whose target is absent, is written nothing.
\<close>

theorem dispatch_sends_line_to_matching_slots:
  assumes "\<forall>i. 0 < fd (log_events s i) \<longrightarrow> (\<exists>b. filter_fn (log_events s i) (l_line e) = Inr b)"
  shows "\<exists>s'. dispatch e s = Inr s' \<and>
           take (length (trace s)) (trace s') = trace s \<and>
           writes_of (drop (length (trace s)) (trace s')) =
             concat (map (\<lambda>i. if 0 < fd (log_events s i) \<and>
                                  filter_fn (log_events s i) (l_line e) = Inr True
                               then [(fd (log_events s i), l_line e)] else []) all_events)"
proof -
  from dispatch_returns [OF assms] obtain s' where run: "dispatch e s = Inr s'"
    by blast
  from dispatch_trace [OF run] obtain evs where
    tr: "trace s' =
             trace s @ Mutex_lock # evs @
               (if thread s < 0 \<and> fd (log_events s' HIDE_EVENT) < 0
                then [Pthread_create (l_tid e)] else []) @ [Mutex_unlock]" and
    wr: "writes_of evs =
             concat (map (\<lambda>i. if 0 < fd (log_events s i) \<and>
                                  filter_fn (log_events s i) (l_line e) = Inr True
                               then [(fd (log_events s i), l_line e)] else []) all_events)"
    by blast
  have "take (length (trace s)) (trace s') = trace s"
    using tr by simp
  moreover have "writes_of (drop (length (trace s)) (trace s')) = writes_of evs"
    using tr by simp
  ultimately show ?thesis
    using run wr by simp
qed

theorem dispatch_sends_line_to_matching_slots_witness:
  "\<exists>s'. dispatch \<lparr>l_line = ''I Magisk: am_proc_start\<newline>'', l_broken = {}, l_tid = 1, l_kill = 0\<rparr>
            (set_fd HIDE_EVENT 7 (log_daemon_setup False 4 0 init_state)) = Inr s' \<and>
         take 2 (trace s') = [Store_fd LOG_EVENT 4, Store_fd HIDE_EVENT 7] \<and>
         writes_of (drop 2 (trace s')) =
           [(7, ''I Magisk: am_proc_start\<newline>''), (4, ''I Magisk: am_proc_start\<newline>'')]"
  using dispatch_sends_line_to_matching_slots
    [of "set_fd HIDE_EVENT 7 (log_daemon_setup False 4 0 init_state)"
        "\<lparr>l_line = ''I Magisk: am_proc_start\<newline>'', l_broken = {}, l_tid = 1, l_kill = 0\<rparr>"]
  by (simp add: all_event_id all_events_def log_daemon_setup_def init_state_def
      log_events_init_def am_proc_start_filter_def magisk_log_filter_def
      magisk_debug_log_filter_def char_at_def ex_bool numeral_2_eq_2)

text \<open>
  C4 (a broken hide connection).  Let the hide slot be present, its filter match the
  line, and the write to it raise the broken-pipe signal.  Then the dispatch of the line
  still returns: right after that write the handler closes the descriptor and stores
  \<open>-1\<close> in the hide slot, the slot is absent afterwards, the other two slots and the
  readiness flag are as before, the other slots are still written the line where their
  filters match, and the reading loop goes on to the liveness check and the next line.
\<close>

theorem broken_hide_write_clears_slot:
  assumes present: "0 < fd (log_events s HIDE_EVENT)"
    and match: "filter_fn (log_events s HIDE_EVENT) (l_line e) = Inr True"
    and broken: "fd (log_events s HIDE_EVENT) \<in> l_broken e"
    and returns: "\<forall>i. 0 < fd (log_events s i) \<longrightarrow> (\<exists>b. filter_fn (log_events s i) (l_line e) = Inr b)"
    and kept: "\<not> is_continuation (l_line e)"
  shows "\<exists>s'. dispatch e s = Inr s' \<and>
           fd (log_events s' HIDE_EVENT) = - 1 \<and>
           filter_fn (log_events s' HIDE_EVENT) = filter_fn (log_events s HIDE_EVENT) \<and>
           log_events s' LOG_EVENT = log_events s LOG_EVENT \<and>
           log_events s' DEBUG_EVENT = log_events s DEBUG_EVENT \<and>
           loggable s' = loggable s \<and>
           (\<exists>rest. trace s' =
              trace s @ Mutex_lock # Write (fd (log_events s HIDE_EVENT)) (l_line e) #
                Close (fd (log_events s HIDE_EVENT)) # Store_fd HIDE_EVENT (- 1) # rest) \<and>
           writes_of (drop (length (trace s)) (trace s')) =
             concat (map (\<lambda>i. if 0 < fd (log_events s i) \<and>
                                  filter_fn (log_events s i) (l_line e) = Inr True
                               then [(fd (log_events s i), l_line e)] else []) all_events) \<and>
           read_lines log_pid (e # es) s =
             (if l_kill e \<noteq> 0 then Inr (emit (Kill log_pid 0) s')
              else read_lines log_pid es (emit (Kill log_pid 0) s'))"
proof -
  from dispatch_returns [OF returns] obtain s' where run: "dispatch e s = Inr s'"
    by blast
  from dispatch_trace [OF run] obtain evs where
    tr: "trace s' =
             trace s @ Mutex_lock # evs @
               (if thread s < 0 \<and> fd (log_events s' HIDE_EVENT) < 0
                then [Pthread_create (l_tid e)] else []) @ [Mutex_unlock]" and
    wr: "writes_of evs =
             concat (map (\<lambda>i. if 0 < fd (log_events s i) \<and>
                                  filter_fn (log_events s i) (l_line e) = Inr True
                               then [(fd (log_events s i), l_line e)] else []) all_events)"
    by blast
  have "writes_of (drop (length (trace s)) (trace s')) = writes_of evs"
    using tr by simp
  with wr have w: "writes_of (drop (length (trace s)) (trace s')) =
             concat (map (\<lambda>i. if 0 < fd (log_events s i) \<and>
                                  filter_fn (log_events s i) (l_line e) = Inr True
                               then [(fd (log_events s i), l_line e)] else []) all_events)"
    by simp
  have r: "read_lines log_pid (e # es) s =
             (if l_kill e \<noteq> 0 then Inr (emit (Kill log_pid 0) s')
              else read_lines log_pid es (emit (Kill log_pid 0) s'))"
    using kept run by (simp add: Let_def)
  from dispatch_hide_broken [OF run present match broken]
    dispatch_hide_broken_trace [OF run present match broken]
    dispatch_effect(1-4) [OF run] run w r
  show ?thesis by blast
qed

theorem broken_hide_write_clears_slot_witness:
  "\<exists>s'. dispatch \<lparr>l_line = ''I Magisk: am_proc_start\<newline>'', l_broken = {7}, l_tid = 1, l_kill = 0\<rparr>
            (set_fd HIDE_EVENT 7 (log_daemon_setup False 4 0 init_state)) = Inr s' \<and>
         fd (log_events s' HIDE_EVENT) = - 1 \<and>
         fd (log_events s' LOG_EVENT) = 4 \<and>
         writes_of (drop 2 (trace s')) =
           [(7, ''I Magisk: am_proc_start\<newline>''), (4, ''I Magisk: am_proc_start\<newline>'')]"
proof -
  let ?e = "\<lparr>l_line = ''I Magisk: am_proc_start\<newline>'', l_broken = {7}, l_tid = 1, l_kill = 0\<rparr>"
  let ?s = "set_fd HIDE_EVENT 7 (log_daemon_setup False 4 0 init_state)"
  have h1: "0 < fd (log_events ?s HIDE_EVENT)"
    by (simp add: log_daemon_setup_def)
  have h2: "filter_fn (log_events ?s HIDE_EVENT) (l_line ?e) = Inr True"
    by (simp add: log_daemon_setup_def init_state_def log_events_init_def am_proc_start_filter_def)
  have h3: "fd (log_events ?s HIDE_EVENT) \<in> l_broken ?e"
    by (simp add: log_daemon_setup_def)
  have h4: "\<forall>i. 0 < fd (log_events ?s i) \<longrightarrow> (\<exists>b. filter_fn (log_events ?s i) (l_line ?e) = Inr b)"
    by (simp add: all_event_id log_daemon_setup_def init_state_def log_events_init_def
        am_proc_start_filter_def magisk_log_filter_def char_at_def ex_bool)
  have h5: "\<not> is_continuation (l_line ?e)"
    by (simp add: is_continuation_def)
  from broken_hide_write_clears_slot [OF h1 h2 h3 h4 h5, of 100 "[]"] obtain s' where
    "dispatch ?e ?s = Inr s'" and "fd (log_events s' HIDE_EVENT) = - 1" and
    "log_events s' LOG_EVENT = log_events ?s LOG_EVENT" and
    "writes_of (drop (length (trace ?s)) (trace s')) =
             concat (map (\<lambda>i. if 0 < fd (log_events ?s i) \<and>
                                  filter_fn (log_events ?s i) (l_line ?e) = Inr True
                               then [(fd (log_events ?s i), l_line ?e)] else []) all_events)"
    by blast
  then show ?thesis
    by (simp add: all_events_def log_daemon_setup_def init_state_def log_events_init_def
        am_proc_start_filter_def magisk_log_filter_def magisk_debug_log_filter_def char_at_def
        numeral_2_eq_2)
qed

section \<open>The probe of the log source\<close>

lemma test_logcat_Some:
  assumes "p_read pe = Some n"
  shows "test_logcat pe s =
           Some (s\<lparr>loggable := (if n \<noteq> 1 then 0 else loggable s),
                   trace := trace s @ [Exec_command [''logcat''] (p_pid pe) (p_fd pe),
                              Read (p_fd pe) 1 n, Kill (p_pid pe) SIGTERM, Waitpid (p_pid pe)]\<rparr>)"
  using assms by (simp add: test_logcat_def emit_def Let_def)

lemma test_logcat_None_iff: "(test_logcat pe s = None) = (p_read pe = None)"
  by (simp add: test_logcat_def Let_def split: option.splits)

lemma test_logcat_effect:
  assumes "test_logcat pe s = Some s'"
  shows "\<exists>n. p_read pe = Some n \<and> loggable s' = (if n \<noteq> 1 then 0 else loggable s) \<and>
           thread s' = thread s \<and> log_events s' = log_events s \<and>
           trace s' = trace s @ [Exec_command [''logcat''] (p_pid pe) (p_fd pe),
                              Read (p_fd pe) 1 n, Kill (p_pid pe) SIGTERM, Waitpid (p_pid pe)]"
proof (cases "p_read pe")
  case None
  with assms show ?thesis by (simp add: test_logcat_def Let_def)
next
  case (Some n)
  from assms test_logcat_Some [OF Some, of s] Some show ?thesis
    by auto
qed

text \<open>
  C5 (probe), as the claim states it, would have the probe return whatever the log
  source does.  The read is a plain blocking \<open>read\<close>: with a child that neither writes
  nor closes its end of the pipe the probe never returns, and neither kills nor reaps.
\<close>

theorem test_logcat_blocks_without_bound:
  "test_logcat \<lparr>p_pid = 100, p_fd = 5, p_read = None\<rparr> init_state = None"
  by (simp add: test_logcat_def Let_def)

text \<open>
  C5 (probe), amended.  The probe starts \<open>logcat\<close> with no argument and reads one byte
  with a blocking read, and it returns exactly when that read returns.  When the read
  returns \<open>n\<close>, the flag is off afterwards exactly when \<open>n\<close> is not 1 or it was off
  before, it is unchanged when \<open>n\<close> is 1, and the calls made are, in this order, the
  start of the child, the read, \<open>kill\<close> with SIGTERM and \<open>waitpid\<close> of the child;
  nothing else of the state changes.
\<close>

theorem test_logcat_probe:
  "(test_logcat pe s = None) = (p_read pe = None) \<and>
   (\<forall>n. p_read pe = Some n \<longrightarrow>
      (\<exists>s'. test_logcat pe s = Some s' \<and>
         (loggable s' = 0) = (n \<noteq> 1 \<or> loggable s = 0) \<and>
         (n = 1 \<longrightarrow> loggable s' = loggable s) \<and>
         thread s' = thread s \<and> log_events s' = log_events s \<and>
         trace s' = trace s @ [Exec_command [''logcat''] (p_pid pe) (p_fd pe),
                      Read (p_fd pe) 1 n, Kill (p_pid pe) SIGTERM, Waitpid (p_pid pe)]))"
proof (intro conjI allI impI)
  show "(test_logcat pe s = None) = (p_read pe = None)"
    by (rule test_logcat_None_iff)
next
  fix n assume "p_read pe = Some n"
  from test_logcat_Some [OF this, of s]
  show "\<exists>s'. test_logcat pe s = Some s' \<and>
         (loggable s' = 0) = (n \<noteq> 1 \<or> loggable s = 0) \<and>
         (n = 1 \<longrightarrow> loggable s' = loggable s) \<and>
         thread s' = thread s \<and> log_events s' = log_events s \<and>
         trace s' = trace s @ [Exec_command [''logcat''] (p_pid pe) (p_fd pe),
                      Read (p_fd pe) 1 n, Kill (p_pid pe) SIGTERM, Waitpid (p_pid pe)]"
    by auto
qed

theorem test_logcat_probe_witness:
  "(\<exists>s'. test_logcat \<lparr>p_pid = 100, p_fd = 5, p_read = Some 0\<rparr> init_state = Some s' \<and>
      loggable s' = 0 \<and>
      trace s' = [Exec_command [''logcat''] 100 5, Read 5 1 0, Kill 100 SIGTERM, Waitpid 100]) \<and>
   (\<exists>s'. test_logcat \<lparr>p_pid = 100, p_fd = 5, p_read = Some 1\<rparr> init_state = Some s' \<and>
      loggable s' = 1 \<and>
      trace s' = [Exec_command [''logcat''] 100 5, Read 5 1 1, Kill 100 SIGTERM, Waitpid 100])"
proof
  from test_logcat_probe [of "\<lparr>p_pid = 100, p_fd = 5, p_read = Some 0\<rparr>" init_state]
  show "\<exists>s'. test_logcat \<lparr>p_pid = 100, p_fd = 5, p_read = Some 0\<rparr> init_state = Some s' \<and>
      loggable s' = 0 \<and>
      trace s' = [Exec_command [''logcat''] 100 5, Read 5 1 0, Kill 100 SIGTERM, Waitpid 100]"
    by (auto simp: init_state_def)
next
  from test_logcat_probe [of "\<lparr>p_pid = 100, p_fd = 5, p_read = Some 1\<rparr>" init_state]
  show "\<exists>s'. test_logcat \<lparr>p_pid = 100, p_fd = 5, p_read = Some 1\<rparr> init_state = Some s' \<and>
      loggable s' = 1 \<and>
      trace s' = [Exec_command [''logcat''] 100 5, Read 5 1 1, Kill 100 SIGTERM, Waitpid 100]"
    by (auto simp: init_state_def)
qed

section \<open>The readiness flag\<close>

lemma loggable_disable_events [simp]: "loggable (disable_events is s) = loggable s"
  by (induction "is" arbitrary: s) simp_all

lemma thread_disable_events [simp]: "thread (disable_events is s) = thread s"
  by (induction "is" arbitrary: s) simp_all

lemma log_events_disable_all:
  "log_events (disable_events all_events s) i = (log_events s i)\<lparr>fd := - 1\<rparr>"
  by (cases i) (simp_all add: all_events_def)

lemma trace_disable_all:
  "trace (disable_events all_events s) =
     trace s @ [Close (fd (log_events s HIDE_EVENT)), Store_fd HIDE_EVENT (- 1),
                Close (fd (log_events s LOG_EVENT)), Store_fd LOG_EVENT (- 1),
                Close (fd (log_events s DEBUG_EVENT)), Store_fd DEBUG_EVENT (- 1)]"
  by (simp add: all_events_def)

lemma log_daemon_loop_disabled:
  "loggable s = 0 \<Longrightarrow> log_daemon_loop runs s = Returned (disable_events all_events s)"
  by (cases runs) simp_all

lemma log_daemon_loop_Returned:
  "log_daemon_loop runs s = Returned s' \<Longrightarrow>
     loggable s' = 0 \<and> (\<forall>i. fd (log_events s' i) = - 1)"
proof (induction runs arbitrary: s)
  case Nil
  then show ?case
    by (auto simp: log_events_disable_all split: if_splits)
next
  case (Cons r rs)
  show ?case
  proof (cases "loggable s = 0")
    case True
    with Cons.prems show ?thesis
      by (auto simp: log_events_disable_all)
  next
    case False
    with Cons.prems obtain s6 where "log_daemon_loop rs s6 = Returned s'"
      by (auto simp: Let_def split: sum.splits option.splits)
    then show ?thesis by (rule Cons.IH)
  qed
qed

lemma log_daemon_loop_probe_fails:
  assumes on: "loggable s \<noteq> 0"
    and run: "read_lines (r_pid r) (r_lines r)
                (emit (Exec_command logcat_argv (r_pid r) (r_fd r)) s) = Inr s2"
    and probe: "p_read (r_probe r) = Some n" and bad: "n \<noteq> 1"
  shows "\<exists>s'. log_daemon_loop (r # rs) s = Returned s' \<and> loggable s' = 0 \<and>
           (\<forall>i. fd (log_events s' i) = - 1)"
proof -
  let ?s5 = "emit (Waitpid (r_pid r)) (emit (Kill (r_pid r) SIGTERM) (emit (Fclose (r_fd r)) s2))"
  from test_logcat_Some [OF probe, of ?s5] bad obtain s6 where
    t: "test_logcat (r_probe r) ?s5 = Some s6" and off: "loggable s6 = 0"
    by auto
  from on run t have "log_daemon_loop (r # rs) s = log_daemon_loop rs s6"
    by (simp add: Let_def)
  also have "\<dots> = Returned (disable_events all_events s6)"
    using off by (rule log_daemon_loop_disabled)
  finally show ?thesis
    using off by (simp add: log_events_disable_all)
qed

lemma loggable_log_daemon_setup [simp]: "loggable (log_daemon_setup d a b s) = loggable s"
  by (simp add: log_daemon_setup_def Let_def)

lemma thread_log_daemon_setup [simp]: "thread (log_daemon_setup d a b s) = thread s"
  by (simp add: log_daemon_setup_def Let_def)

lemma loggable_acceptor_reject [simp]: "loggable (acceptor_reject f c s) = loggable s"
  by (simp add: acceptor_reject_def)

lemma thread_acceptor_reject [simp]: "thread (acceptor_reject f c s) = thread s"
  by (simp add: acceptor_reject_def)

lemma loggable_acceptor_register [simp]: "loggable (acceptor_register f c s) = loggable s"
  by (simp add: acceptor_register_def)

lemma thread_acceptor_register [simp]: "thread (acceptor_register f c s) = thread s"
  by (simp add: acceptor_register_def)

lemma loggable_acceptor_exit [simp]: "loggable (acceptor_exit s) = loggable s"
  by (simp add: acceptor_exit_def)

lemma thread_acceptor_exit [simp]: "thread (acceptor_exit s) = - 1"
  by (simp add: acceptor_exit_def)

lemma monitor_logs_effect:
  assumes "monitor_logs dn pe cfd s = Some s'"
  shows "\<exists>s1. test_logcat pe s = Some s1 \<and> loggable s' = loggable s1 \<and> thread s' = thread s1"
  using assms by (auto simp: monitor_logs_def split: option.splits if_splits)

lemma read_lines_loggable:
  "read_lines log_pid es s = Inr s' \<Longrightarrow> loggable s' = loggable s"
proof (induction es arbitrary: s)
  case Nil
  then show ?case by simp
next
  case (Cons e es)
  show ?case
  proof (cases "is_continuation (l_line e)")
    case True
    with Cons.prems have "read_lines log_pid es s = Inr s'" by simp
    then show ?thesis by (rule Cons.IH)
  next
    case False
    with Cons.prems obtain s1 where d: "dispatch e s = Inr s1"
      and rest: "(if l_kill e \<noteq> 0 then Inr (emit (Kill log_pid 0) s1)
                  else read_lines log_pid es (emit (Kill log_pid 0) s1)) = Inr s'"
      by (auto simp: Let_def split: sum.splits)
    from dispatch_effect(1) [OF d] have l1: "loggable s1 = loggable s" .
    show ?thesis
    proof (cases "l_kill e \<noteq> 0")
      case True
      with rest l1 show ?thesis by auto
    next
      case False
      with rest have "read_lines log_pid es (emit (Kill log_pid 0) s1) = Inr s'"
        by simp
      from Cons.IH [OF this] l1 show ?thesis by simp
    qed
  qed
qed

lemma socket_thread_loggable: "loggable (snd (socket_thread hc conns s)) = loggable s"
proof (induction conns arbitrary: s)
  case Nil
  show ?case by simp
next
  case (Cons c conns)
  obtain cfd code where c: "c = (cfd, code)" by (cases c)
  show ?case
  proof (cases "code = hc")
    case True
    with c show ?thesis by (simp add: Let_def)
  next
    case False
    with c Cons.IH [of "emit (Close cfd) (emit (Read_int cfd code) (emit (Accept4 cfd) s))"]
    show ?thesis by (simp add: Let_def)
  qed
qed

lemma monitor_logs_failed_probe:
  assumes "monitor_logs dn pe cfd s = Some s'" and "test_logcat pe s = Some s1"
    and "loggable s1 = 0"
  shows "s' = s1"
  using assms by (simp add: monitor_logs_def)

text \<open>
  A step that changes the flag is a probe whose read did not return one byte: the state
  after the step is the state that probe returns.
\<close>

lemma step_loggable:
  assumes "step hc c c'"
  shows "loggable (fst c') = loggable (fst c) \<or>
         (loggable (fst c') = 0 \<and> snd c' = snd c \<and>
          (\<exists>pe n. p_read pe = Some n \<and> n \<noteq> 1 \<and> test_logcat pe (fst c) = Some (fst c')))"
  using assms
proof cases
  case (Dispatch e s s' accs)
  then show ?thesis by (simp add: dispatch_effect(1))
next
  case (Probe pe s s' accs)
  from test_logcat_effect [OF Probe(3)] obtain n where
    n: "p_read pe = Some n" and l: "loggable s' = (if n \<noteq> 1 then 0 else loggable s)"
    by blast
  show ?thesis
  proof (cases "n = 1")
    case True
    with l Probe show ?thesis by simp
  next
    case False
    with n l Probe show ?thesis by auto
  qed
next
  case (Monitor dn pe cfd s s' accs)
  from monitor_logs_effect [OF Monitor(3)] obtain s1 where
    t: "test_logcat pe s = Some s1" and l: "loggable s' = loggable s1"
    by blast
  from test_logcat_effect [OF t] obtain n where
    n: "p_read pe = Some n" and l1: "loggable s1 = (if n \<noteq> 1 then 0 else loggable s)"
    by blast
  show ?thesis
  proof (cases "n = 1")
    case True
    with l l1 Monitor show ?thesis by simp
  next
    case False
    with l1 have off: "loggable s1 = 0" by simp
    from monitor_logs_failed_probe [OF Monitor(3) t off] have "s' = s1" .
    with False n t off Monitor show ?thesis by auto
  qed
qed simp_all

text \<open>How the outer loop ends, and what that says of the probes of its runs.\<close>

lemma log_daemon_loop_Returned_probe:
  assumes "log_daemon_loop runs s = Returned s'" and "loggable s \<noteq> 0"
  shows "\<exists>a r b n. runs = a @ r # b \<and> list_all (\<lambda>q. p_read (r_probe q) = Some 1) a \<and>
           p_read (r_probe r) = Some n \<and> n \<noteq> 1"
  using assms
proof (induction runs arbitrary: s)
  case Nil
  then show ?case by simp
next
  case (Cons r rs)
  let ?s1 = "emit (Exec_command logcat_argv (r_pid r) (r_fd r)) s"
  from Cons.prems obtain s2 where rl: "read_lines (r_pid r) (r_lines r) ?s1 = Inr s2"
    by (auto simp: Let_def split: sum.splits)
  let ?s5 = "emit (Waitpid (r_pid r)) (emit (Kill (r_pid r) SIGTERM) (emit (Fclose (r_fd r)) s2))"
  from Cons.prems rl obtain s6 where t: "test_logcat (r_probe r) ?s5 = Some s6"
    and next_run: "log_daemon_loop rs s6 = Returned s'"
    by (auto simp: Let_def split: option.splits)
  from test_logcat_effect [OF t] obtain n where
    n: "p_read (r_probe r) = Some n" and l: "loggable s6 = (if n \<noteq> 1 then 0 else loggable ?s5)"
    by blast
  show ?case
  proof (cases "n = 1")
    case False
    with n have "r # rs = [] @ r # rs \<and> list_all (\<lambda>q. p_read (r_probe q) = Some 1) [] \<and>
        p_read (r_probe r) = Some n \<and> n \<noteq> 1"
      by simp
    then show ?thesis by blast
  next
    case True
    from read_lines_loggable [OF rl] have "loggable s2 = loggable s" by simp
    with True l Cons.prems(2) have "loggable s6 \<noteq> 0" by simp
    from Cons.IH [OF next_run this] obtain a r' b m where
      "rs = a @ r' # b" and "list_all (\<lambda>q. p_read (r_probe q) = Some 1) a" and
      "p_read (r_probe r') = Some m" and "m \<noteq> 1"
      by blast
    with True n have "r # rs = (r # a) @ r' # b \<and>
        list_all (\<lambda>q. p_read (r_probe q) = Some 1) (r # a) \<and>
        p_read (r_probe r') = Some m \<and> m \<noteq> 1"
      by simp
    then show ?thesis by blast
  qed
qed

lemma log_daemon_loop_running:
  assumes "log_daemon_loop runs s = out"
    and "out = Out_of_input s' \<or> out = Hung_in_probe s'"
  shows "loggable s' = loggable s \<and> loggable s \<noteq> 0 \<and>
         (out = Out_of_input s' \<longrightarrow> list_all (\<lambda>q. p_read (r_probe q) = Some 1) runs)"
  using assms
proof (induction runs arbitrary: s)
  case Nil
  then show ?case by (auto split: if_splits)
next
  case (Cons r rs)
  from Cons.prems have on: "loggable s \<noteq> 0"
    by (auto split: if_splits)
  let ?s1 = "emit (Exec_command logcat_argv (r_pid r) (r_fd r)) s"
  from Cons.prems on obtain s2 where rl: "read_lines (r_pid r) (r_lines r) ?s1 = Inr s2"
    by (auto simp: Let_def split: sum.splits)
  from read_lines_loggable [OF rl] have l2: "loggable s2 = loggable s" by simp
  let ?s5 = "emit (Waitpid (r_pid r)) (emit (Kill (r_pid r) SIGTERM) (emit (Fclose (r_fd r)) s2))"
  show ?case
  proof (cases "test_logcat (r_probe r) ?s5")
    case None
    with Cons.prems on rl have "out = Hung_in_probe ?s5"
      by (simp add: Let_def)
    with Cons.prems(2) l2 on show ?thesis by auto
  next
    case (Some s6)
    with Cons.prems(1) on rl have next_run: "log_daemon_loop rs s6 = out"
      by (simp add: Let_def)
    from Cons.IH [OF next_run Cons.prems(2)] have
      ih: "loggable s' = loggable s6" "loggable s6 \<noteq> 0"
      "out = Out_of_input s' \<longrightarrow> list_all (\<lambda>q. p_read (r_probe q) = Some 1) rs"
      by simp_all
    from test_logcat_effect [OF Some] obtain n where
      n: "p_read (r_probe r) = Some n" and l: "loggable s6 = (if n \<noteq> 1 then 0 else loggable ?s5)"
      by blast
    from l ih(2) have "n = 1" by (cases "n = 1") simp_all
    with n l l2 ih on show ?thesis by simp
  qed
qed

text \<open>
  C2 (readiness flag).  The flag is 1 in the initial state.  A probe that returns leaves
  it as it was when its read returned one byte and clears it otherwise.  A step of the
  process that changes the flag clears it and is a probe whose read did not return one
  byte (the state after the step is the state that probe returns); so no step takes
  the flag from 0 to anything else.  The reading loop and the acceptor leave the flag as
  it is.  With the flag at 0 the dispatch loop, whatever input is left, closes the target
  of every slot in the order of the table, stores \<open>-1\<close> in each, and returns.  A run of
  logcat whose probe fails ends the loop in that way.  The loop returns in no other
  state, and when it was entered with the flag set it returns only after a run whose
  probe did not read one byte, the probes of all runs before it having read one; a loop
  that is still running, or hangs in a probe, has the flag as it was at entry.
\<close>

theorem readiness_flag_one_way:
  "loggable init_state = 1 \<and>
   (test_logcat pe s = Some s1 \<longrightarrow>
      loggable s1 = (if p_read pe = Some 1 then loggable s else 0)) \<and>
   (step hc c c' \<longrightarrow>
      loggable (fst c') = loggable (fst c) \<or>
      (loggable (fst c') = 0 \<and> snd c' = snd c \<and>
       (\<exists>pe n. p_read pe = Some n \<and> n \<noteq> 1 \<and> test_logcat pe (fst c) = Some (fst c')))) \<and>
   (step hc c c' \<longrightarrow> loggable (fst c) = 0 \<longrightarrow> loggable (fst c') = 0) \<and>
   (read_lines log_pid es s = Inr s3 \<longrightarrow> loggable s3 = loggable s) \<and>
   loggable (snd (socket_thread hc conns s)) = loggable s \<and>
   (loggable s = 0 \<longrightarrow>
      log_daemon_loop runs s = Returned (disable_events all_events s) \<and>
      loggable (disable_events all_events s) = 0 \<and>
      (\<forall>i. fd (log_events (disable_events all_events s) i) = - 1) \<and>
      trace (disable_events all_events s) =
        trace s @ [Close (fd (log_events s HIDE_EVENT)), Store_fd HIDE_EVENT (- 1),
                   Close (fd (log_events s LOG_EVENT)), Store_fd LOG_EVENT (- 1),
                   Close (fd (log_events s DEBUG_EVENT)), Store_fd DEBUG_EVENT (- 1)]) \<and>
   (loggable s \<noteq> 0 \<longrightarrow>
    read_lines (r_pid r) (r_lines r) (emit (Exec_command logcat_argv (r_pid r) (r_fd r)) s) = Inr s2 \<longrightarrow>
    p_read (r_probe r) = Some n \<longrightarrow> n \<noteq> 1 \<longrightarrow>
      (\<exists>s'. log_daemon_loop (r # rs) s = Returned s' \<and> loggable s' = 0 \<and>
            (\<forall>i. fd (log_events s' i) = - 1))) \<and>
   (log_daemon_loop runs s = Returned s' \<longrightarrow>
      loggable s' = 0 \<and> (\<forall>i. fd (log_events s' i) = - 1)) \<and>
   (loggable s \<noteq> 0 \<longrightarrow> log_daemon_loop runs s = Returned s' \<longrightarrow>
      (\<exists>a q b m. runs = a @ q # b \<and> list_all (\<lambda>q. p_read (r_probe q) = Some 1) a \<and>
         p_read (r_probe q) = Some m \<and> m \<noteq> 1)) \<and>
   (log_daemon_loop runs s = Out_of_input s' \<longrightarrow>
      loggable s' = loggable s \<and> loggable s \<noteq> 0 \<and>
      list_all (\<lambda>q. p_read (r_probe q) = Some 1) runs) \<and>
   (log_daemon_loop runs s = Hung_in_probe s' \<longrightarrow>
      loggable s' = loggable s \<and> loggable s \<noteq> 0)"
proof (intro conjI impI)
  show "loggable init_state = 1"
    by (simp add: init_state_def)
next
  assume "test_logcat pe s = Some s1"
  from test_logcat_effect [OF this]
  show "loggable s1 = (if p_read pe = Some 1 then loggable s else 0)"
    by auto
next
  assume "step hc c c'"
  then show "loggable (fst c') = loggable (fst c) \<or>
      (loggable (fst c') = 0 \<and> snd c' = snd c \<and>
       (\<exists>pe n. p_read pe = Some n \<and> n \<noteq> 1 \<and> test_logcat pe (fst c) = Some (fst c')))"
    by (rule step_loggable)
next
  assume "step hc c c'" and "loggable (fst c) = 0"
  with step_loggable [of hc c c'] show "loggable (fst c') = 0"
    by auto
next
  assume "read_lines log_pid es s = Inr s3"
  then show "loggable s3 = loggable s"
    by (rule read_lines_loggable)
next
  show "loggable (snd (socket_thread hc conns s)) = loggable s"
    by (rule socket_thread_loggable)
next
  assume "loggable s = 0"
  then show "log_daemon_loop runs s = Returned (disable_events all_events s)"
    by (rule log_daemon_loop_disabled)
next
  assume "loggable s = 0"
  then show "loggable (disable_events all_events s) = 0"
    by simp
next
  show "\<forall>i. fd (log_events (disable_events all_events s) i) = - 1"
    by (simp add: log_events_disable_all)
next
  show "trace (disable_events all_events s) =
        trace s @ [Close (fd (log_events s HIDE_EVENT)), Store_fd HIDE_EVENT (- 1),
                   Close (fd (log_events s LOG_EVENT)), Store_fd LOG_EVENT (- 1),
                   Close (fd (log_events s DEBUG_EVENT)), Store_fd DEBUG_EVENT (- 1)]"
    by (rule trace_disable_all)
next
  assume "loggable s \<noteq> 0"
    and "read_lines (r_pid r) (r_lines r) (emit (Exec_command logcat_argv (r_pid r) (r_fd r)) s) = Inr s2"
    and "p_read (r_probe r) = Some n" and "n \<noteq> 1"
  then show "\<exists>s'. log_daemon_loop (r # rs) s = Returned s' \<and> loggable s' = 0 \<and>
            (\<forall>i. fd (log_events s' i) = - 1)"
    by (rule log_daemon_loop_probe_fails)
next
  assume "log_daemon_loop runs s = Returned s'"
  from log_daemon_loop_Returned [OF this]
  show "loggable s' = 0" and "\<forall>i. fd (log_events s' i) = - 1"
    by simp_all
next
  assume "loggable s \<noteq> 0" and "log_daemon_loop runs s = Returned s'"
  from log_daemon_loop_Returned_probe [OF this(2) this(1)]
  show "\<exists>a q b m. runs = a @ q # b \<and> list_all (\<lambda>q. p_read (r_probe q) = Some 1) a \<and>
         p_read (r_probe q) = Some m \<and> m \<noteq> 1" .
next
  assume o: "log_daemon_loop runs s = Out_of_input s'"
  from log_daemon_loop_running [OF o, of s']
  show "loggable s' = loggable s" and "loggable s \<noteq> 0"
    and "list_all (\<lambda>q. p_read (r_probe q) = Some 1) runs"
    by simp_all
next
  assume h: "log_daemon_loop runs s = Hung_in_probe s'"
  from log_daemon_loop_running [OF h, of s']
  show "loggable s' = loggable s" and "loggable s \<noteq> 0"
    by simp_all
qed

theorem readiness_flag_one_way_witness:
  "loggable init_state = 1 \<and>
   (\<exists>s1. test_logcat \<lparr>p_pid = 100, p_fd = 6, p_read = Some 0\<rparr>
            (set_fd HIDE_EVENT 7 (log_daemon_setup True 4 5 init_state)) = Some s1 \<and>
      step 12 (set_fd HIDE_EVENT 7 (log_daemon_setup True 4 5 init_state), []) (s1, []) \<and>
      loggable s1 = 0) \<and>
   (\<exists>s'. log_daemon_loop
            [\<lparr>r_pid = 101, r_fd = 8,
              r_lines = [\<lparr>l_line = ''I Magisk: boot\<newline>'', l_broken = {}, l_tid = 1, l_kill = 0\<rparr>],
              r_probe = \<lparr>p_pid = 100, p_fd = 6, p_read = Some 1\<rparr>\<rparr>,
             \<lparr>r_pid = 102, r_fd = 8,
              r_lines = [\<lparr>l_line = ''I Magisk: boot\<newline>'', l_broken = {}, l_tid = 1, l_kill = 0\<rparr>],
              r_probe = \<lparr>p_pid = 100, p_fd = 6, p_read = Some 0\<rparr>\<rparr>,
             \<lparr>r_pid = 103, r_fd = 8, r_lines = [],
              r_probe = \<lparr>p_pid = 100, p_fd = 6, p_read = Some 1\<rparr>\<rparr>]
            (set_fd HIDE_EVENT 7 (log_daemon_setup True 4 5 init_state)) = Returned s' \<and>
      loggable s' = 0 \<and> fd (log_events s' HIDE_EVENT) = - 1 \<and>
      fd (log_events s' LOG_EVENT) = - 1 \<and> fd (log_events s' DEBUG_EVENT) = - 1) \<and>
   (\<exists>s'. log_daemon_loop
            [\<lparr>r_pid = 101, r_fd = 8,
              r_lines = [\<lparr>l_line = ''I Magisk: boot\<newline>'', l_broken = {}, l_tid = 1, l_kill = 0\<rparr>],
              r_probe = \<lparr>p_pid = 100, p_fd = 6, p_read = Some 1\<rparr>\<rparr>]
            (set_fd HIDE_EVENT 7 (log_daemon_setup True 4 5 init_state)) = Out_of_input s' \<and>
      loggable s' = 1) \<and>
   log_daemon_loop []
     ((set_fd HIDE_EVENT 7 (log_daemon_setup True 4 5 init_state))\<lparr>loggable := 0\<rparr>) =
     Returned (disable_events all_events
       ((set_fd HIDE_EVENT 7 (log_daemon_setup True 4 5 init_state))\<lparr>loggable := 0\<rparr>)) \<and>
   trace (disable_events all_events
       ((set_fd HIDE_EVENT 7 (log_daemon_setup True 4 5 init_state))\<lparr>loggable := 0\<rparr>)) =
     [Store_fd LOG_EVENT 4, Store_fd DEBUG_EVENT 5, Store_fd HIDE_EVENT 7,
      Close 7, Store_fd HIDE_EVENT (- 1), Close 4, Store_fd LOG_EVENT (- 1),
      Close 5, Store_fd DEBUG_EVENT (- 1)]"
proof -
  let ?s0 = "set_fd HIDE_EVENT 7 (log_daemon_setup True 4 5 init_state)"
  let ?off = "?s0\<lparr>loggable := 0\<rparr>"
  let ?bad = "\<lparr>p_pid = 100, p_fd = 6, p_read = Some 0\<rparr>"
  let ?ok = "\<lparr>p_pid = 100, p_fd = 6, p_read = Some 1\<rparr>"
  let ?e = "\<lparr>l_line = ''I Magisk: boot\<newline>'', l_broken = {}, l_tid = 1, l_kill = 0\<rparr>"
  let ?r1 = "\<lparr>r_pid = 101, r_fd = 8, r_lines = [?e], r_probe = ?ok\<rparr>"
  let ?r2 = "\<lparr>r_pid = 102, r_fd = 8, r_lines = [?e], r_probe = ?bad\<rparr>"
  let ?r3 = "\<lparr>r_pid = 103, r_fd = 8, r_lines = [], r_probe = ?ok\<rparr>"
  note defs = log_daemon_setup_def init_state_def log_events_init_def all_events_def
    dispatch_def is_continuation_def test_logcat_def strlen_def write_sys_def
    am_proc_start_filter_def magisk_log_filter_def magisk_debug_log_filter_def char_at_def
    xpthread_create_def Let_def
  have on: "loggable ?s0 \<noteq> 0"
    by (simp add: defs)
  obtain s1 where t: "test_logcat ?bad ?s0 = Some s1"
    by (simp add: test_logcat_def Let_def)
  then have st: "step 12 (?s0, []) (s1, [])"
    by (rule step.Probe)
  from readiness_flag_one_way [where pe = ?bad and s = ?s0 and ?s1.0 = s1] t
  have off1: "loggable s1 = 0"
    by simp
  obtain s' where ret: "log_daemon_loop [?r1, ?r2, ?r3] ?s0 = Returned s'"
    by (simp add: defs)
  from readiness_flag_one_way [where runs = "[?r1, ?r2, ?r3]" and s = ?s0 and s' = s'] ret
  have off: "loggable s' = 0" and fds: "\<forall>i. fd (log_events s' i) = - 1"
    by blast+
  obtain s'' where run: "log_daemon_loop [?r1] ?s0 = Out_of_input s''"
    by (simp add: defs)
  from readiness_flag_one_way [where runs = "[?r1]" and s = ?s0 and s' = s''] run
  have "loggable s'' = loggable ?s0"
    by blast
  then have on'': "loggable s'' = 1"
    by (simp add: defs)
  have "loggable ?off = 0"
    by simp
  with readiness_flag_one_way [where runs = "[]" and s = ?off]
  have "log_daemon_loop [] ?off = Returned (disable_events all_events ?off)"
    and "trace (disable_events all_events ?off) =
        trace ?off @ [Close (fd (log_events ?off HIDE_EVENT)), Store_fd HIDE_EVENT (- 1),
                   Close (fd (log_events ?off LOG_EVENT)), Store_fd LOG_EVENT (- 1),
                   Close (fd (log_events ?off DEBUG_EVENT)), Store_fd DEBUG_EVENT (- 1)]"
    by blast+
  then have d: "log_daemon_loop [] ?off = Returned (disable_events all_events ?off)"
    and tr: "trace (disable_events all_events ?off) =
     [Store_fd LOG_EVENT 4, Store_fd DEBUG_EVENT 5, Store_fd HIDE_EVENT 7,
      Close 7, Store_fd HIDE_EVENT (- 1), Close 4, Store_fd LOG_EVENT (- 1),
      Close 5, Store_fd DEBUG_EVENT (- 1)]"
    by (simp_all add: log_daemon_setup_def init_state_def)
  have i: "loggable init_state = 1"
    using readiness_flag_one_way by blast
  from t st off1 have a: "\<exists>s1. test_logcat ?bad ?s0 = Some s1 \<and> step 12 (?s0, []) (s1, []) \<and>
      loggable s1 = 0"
    by blast
  from ret off fds have b: "\<exists>s'. log_daemon_loop [?r1, ?r2, ?r3] ?s0 = Returned s' \<and>
      loggable s' = 0 \<and> fd (log_events s' HIDE_EVENT) = - 1 \<and>
      fd (log_events s' LOG_EVENT) = - 1 \<and> fd (log_events s' DEBUG_EVENT) = - 1"
    by blast
  from run on'' have c: "\<exists>s'. log_daemon_loop [?r1] ?s0 = Out_of_input s' \<and> loggable s' = 1"
    by blast
  from i a b c d tr show ?thesis
    by (intro conjI)
qed

section \<open>The acceptor\<close>

text \<open>One pass of the acceptor's loop is one of its actions.\<close>

lemma socket_thread_steps:
  "socket_thread hc ((cfd, code) # conns) s =
     (if code = hc then (Thread_returned, acceptor_exit (acceptor_register cfd code s))
      else socket_thread hc conns (acceptor_reject cfd code s))"
  by (simp add: Let_def acceptor_exit_def acceptor_register_def acceptor_reject_def)

lemma dropWhile_Cons_ex: "dropWhile P xs = y # ys \<Longrightarrow> \<exists>x\<in>set xs. \<not> P x"
  by (metis dropWhile_eq_Nil_conv list.distinct(1))

text \<open>
  C6 (acceptor).  Of the connections that arrive, the acceptor accepts, reads and closes
  every one before the first that sends the registration code, in order, and changes
  nothing else.  The first connection that sends the code it accepts and reads, stores
  as the target of the hide slot between taking and releasing the guard, resets
  \<open>thread\<close> and returns: connections after it are not touched, so there is one
  registration.  With no such connection it is left blocked in \<open>accept4\<close>.
\<close>

theorem socket_thread_registers_once:
  "socket_thread hc conns s =
     (let rejected = takeWhile (\<lambda>c. snd c \<noteq> hc) conns;
          s1 = s\<lparr>trace := trace s @
                 concat (map (\<lambda>c. [Accept4 (fst c), Read_int (fst c) (snd c), Close (fst c)])
                           rejected)\<rparr>
      in case dropWhile (\<lambda>c. snd c \<noteq> hc) conns of
           [] \<Rightarrow> (Blocked_in_accept, s1)
         | c # later \<Rightarrow>
             (Thread_returned,
              s1\<lparr>thread := - 1,
                 log_events := (log_events s)(HIDE_EVENT := (log_events s HIDE_EVENT)\<lparr>fd := fst c\<rparr>),
                 trace := trace s1 @
                   [Accept4 (fst c), Read_int (fst c) hc, Mutex_lock,
                    Store_fd HIDE_EVENT (fst c), Mutex_unlock]\<rparr>))"
proof (induction conns arbitrary: s)
  case Nil
  show ?case by simp
next
  case (Cons c conns)
  obtain cfd code where c: "c = (cfd, code)"
    by (cases c)
  show ?case
  proof (cases "code = hc")
    case True
    with c show ?thesis
      by (simp add: Let_def emit_def set_fd_def)
  next
    case False
    let ?s' = "acceptor_reject cfd code s"
    have eq: "socket_thread hc (c # conns) s = socket_thread hc conns ?s'"
      using c False by (simp add: Let_def acceptor_reject_def)
    let ?mid = "let rejected = takeWhile (\<lambda>c. snd c \<noteq> hc) conns;
              s1 = ?s'\<lparr>trace := trace ?s' @
                 concat (map (\<lambda>c. [Accept4 (fst c), Read_int (fst c) (snd c), Close (fst c)])
                           rejected)\<rparr>
          in case dropWhile (\<lambda>c. snd c \<noteq> hc) conns of
               [] \<Rightarrow> (Blocked_in_accept, s1)
             | c # later \<Rightarrow>
                 (Thread_returned,
                  s1\<lparr>thread := - 1,
                     log_events := (log_events ?s')(HIDE_EVENT := (log_events ?s' HIDE_EVENT)\<lparr>fd := fst c\<rparr>),
                     trace := trace s1 @
                       [Accept4 (fst c), Read_int (fst c) hc, Mutex_lock,
                        Store_fd HIDE_EVENT (fst c), Mutex_unlock]\<rparr>)"
    from eq Cons.IH [of ?s'] have "socket_thread hc (c # conns) s = ?mid"
      by (rule trans)
    also have "?mid =
      (let rejected = takeWhile (\<lambda>c. snd c \<noteq> hc) (c # conns);
          s1 = s\<lparr>trace := trace s @
                 concat (map (\<lambda>c. [Accept4 (fst c), Read_int (fst c) (snd c), Close (fst c)])
                           rejected)\<rparr>
      in case dropWhile (\<lambda>c. snd c \<noteq> hc) (c # conns) of
           [] \<Rightarrow> (Blocked_in_accept, s1)
         | c # later \<Rightarrow>
             (Thread_returned,
              s1\<lparr>thread := - 1,
                 log_events := (log_events s)(HIDE_EVENT := (log_events s HIDE_EVENT)\<lparr>fd := fst c\<rparr>),
                 trace := trace s1 @
                   [Accept4 (fst c), Read_int (fst c) hc, Mutex_lock,
                    Store_fd HIDE_EVENT (fst c), Mutex_unlock]\<rparr>))"
      using c False
      by (auto simp: Let_def acceptor_reject_def emit_def split: list.split
          dest: dropWhile_Cons_ex)
    finally show ?thesis .
  qed
qed

section \<open>The acceptors that are outstanding\<close>

lemma count_spawn_append [simp]: "count_spawn (xs @ ys) = count_spawn xs + count_spawn ys"
  by (induction xs rule: count_spawn.induct) simp_all

lemma count_spawn_io: "list_all io_event evs \<Longrightarrow> count_spawn evs = 0"
  by (induction evs rule: count_spawn.induct) simp_all

lemma spawned_ids_append [simp]: "spawned_ids (xs @ ys) = spawned_ids xs @ spawned_ids ys"
  by (induction xs rule: spawned_ids.induct) simp_all

lemma spawned_ids_io: "list_all io_event evs \<Longrightarrow> spawned_ids evs = []"
  by (induction evs rule: spawned_ids.induct) simp_all

text \<open>
  The acceptor is created under the guard: a dispatch takes the guard first and
  releases it last; in between it makes the writes (with the handler's close and store)
  and then creates at most one thread, exactly when \<open>thread\<close> was negative and the hide
  slot's \<open>fd\<close> is negative once the loop over the table is done.
\<close>

lemma dispatch_spawn_under_guard:
  assumes "dispatch e s = Inr s'"
  shows "\<exists>evs. trace s' =
           trace s @ Mutex_lock # evs @
             (if thread s < 0 \<and> fd (log_events s' HIDE_EVENT) < 0
              then [Pthread_create (l_tid e)] else []) @ [Mutex_unlock] \<and>
         list_all io_event evs \<and> count_spawn evs = 0 \<and> spawned_ids evs = []"
proof -
  from dispatch_trace [OF assms] obtain evs where
    "trace s' =
           trace s @ Mutex_lock # evs @
             (if thread s < 0 \<and> fd (log_events s' HIDE_EVENT) < 0
              then [Pthread_create (l_tid e)] else []) @ [Mutex_unlock]"
    and "list_all io_event evs"
    by blast
  then show ?thesis
    using count_spawn_io spawned_ids_io by blast
qed

lemma dispatch_count_spawn:
  assumes "dispatch e s = Inr s'"
  shows "count_spawn (trace s') - count_spawn (trace s) =
           (if thread s < 0 \<and> fd (log_events s' HIDE_EVENT) < 0 then 1 else 0)"
proof -
  from dispatch_spawn_under_guard [OF assms] obtain evs where
    "trace s' =
             trace s @ Mutex_lock # evs @
               (if thread s < 0 \<and> fd (log_events s' HIDE_EVENT) < 0
                then [Pthread_create (l_tid e)] else []) @ [Mutex_unlock]"
    and "count_spawn evs = 0"
    by blast
  then show ?thesis by simp
qed

lemma dispatch_spawned_ids:
  assumes "dispatch e s = Inr s'"
  shows "spawned_ids (trace s') =
           spawned_ids (trace s) @
             (if thread s < 0 \<and> fd (log_events s' HIDE_EVENT) < 0 then [l_tid e] else [])"
proof -
  from dispatch_spawn_under_guard [OF assms] obtain evs where
    "trace s' =
             trace s @ Mutex_lock # evs @
               (if thread s < 0 \<and> fd (log_events s' HIDE_EVENT) < 0
                then [Pthread_create (l_tid e)] else []) @ [Mutex_unlock]"
    and "spawned_ids evs = []"
    by blast
  then show ?thesis by simp
qed

lemma spawned_ids_log_daemon_setup [simp]:
  "spawned_ids (trace (log_daemon_setup d a b s)) = spawned_ids (trace s)"
  by (simp add: log_daemon_setup_def Let_def)

lemma spawned_ids_disable_all [simp]:
  "spawned_ids (trace (disable_events all_events s)) = spawned_ids (trace s)"
  by (simp add: trace_disable_all)

lemma spawned_ids_test_logcat:
  "test_logcat pe s = Some s' \<Longrightarrow> spawned_ids (trace s') = spawned_ids (trace s)"
  by (drule test_logcat_effect) auto

lemma spawned_ids_monitor_logs:
  assumes "monitor_logs dn pe cfd s = Some s'"
  shows "spawned_ids (trace s') = spawned_ids (trace s)"
proof -
  from assms obtain s1 where t: "test_logcat pe s = Some s1"
    and s': "s' = s1 \<or> s' = emit (Close cfd) (emit (Write_int cfd dn) (emit (Connect_daemon2 cfd) s1))"
    by (auto simp: monitor_logs_def split: option.splits if_splits)
  from spawned_ids_test_logcat [OF t] s' show ?thesis
    by auto
qed

lemma step_spawned_ids:
  assumes "step hc c c'"
  shows "\<exists>ids. spawned_ids (trace (fst c')) = spawned_ids (trace (fst c)) @ ids"
  using assms
proof cases
  case (Dispatch e s s' accs)
  with dispatch_spawned_ids [OF Dispatch(3)] show ?thesis by simp
next
  case (Probe pe s s' accs)
  with spawned_ids_test_logcat [OF Probe(3)] show ?thesis by simp
next
  case (Monitor dn pe cfd s s' accs)
  with spawned_ids_monitor_logs [OF Monitor(3)] show ?thesis by simp
qed (simp_all add: acceptor_reject_def acceptor_register_def acceptor_exit_def)

text \<open>
  Where every thread id stored so far is non-negative, the test \<open>thread < 0\<close> says what it
  is meant to say: there is at most one outstanding acceptor, and there is none exactly
  when \<open>thread\<close> is negative.
\<close>

lemma reachable_one_acceptor:
  assumes "reachable hc c"
    and "list_all (\<lambda>t. 0 \<le> t) (spawned_ids (trace (fst c)))"
  shows "length (snd c) \<le> 1 \<and> (thread (fst c) < 0) = (snd c = [])"
  using assms
proof induction
  case Init
  show ?case by (simp add: init_state_def)
next
  case (Step c c')
  from step_spawned_ids [OF Step.hyps(2)] Step.prems
  have "list_all (\<lambda>t. 0 \<le> t) (spawned_ids (trace (fst c)))"
    by auto
  then have IH: "length (snd c) \<le> 1 \<and> (thread (fst c) < 0) = (snd c = [])"
    by (rule Step.IH)
  from Step.hyps(2) IH Step.prems show ?case
  proof cases
    case (Dispatch e s s' accs)
    from dispatch_effect(6) [OF Dispatch(3)] dispatch_count_spawn [OF Dispatch(3)]
      dispatch_spawned_ids [OF Dispatch(3)] Dispatch IH Step.prems
    show ?thesis
      by (auto split: if_splits)
  next
    case (Probe pe s s' accs)
    from test_logcat_effect [OF Probe(3)] have "thread s' = thread s"
      by blast
    with Probe IH show ?thesis by simp
  next
    case (Monitor dn pe cfd s s' accs)
    from monitor_logs_effect [OF Monitor(3)] obtain s1 where
      t: "test_logcat pe s = Some s1" and "thread s' = thread s1"
      by blast
    moreover from test_logcat_effect [OF t] have "thread s1 = thread s"
      by blast
    ultimately show ?thesis
      using Monitor IH by simp
  next
    case (Register accs xs ys s cfd)
    with IH show ?thesis
      by (cases xs) auto
  next
    case (Exit accs xs ys s)
    with IH show ?thesis
      by (cases xs) auto
  qed simp_all
qed

text \<open>
  The steps cover the two functions: what the reading loop, the outer loop and the
  acceptor do in sequence is a path of steps.
\<close>

lemma read_lines_reachable:
  assumes "read_lines log_pid es s = Inr s'"
    and "reachable hc (s, accs)"
  shows "\<exists>accs'. reachable hc (s', accs')"
  using assms
proof (induction es arbitrary: s accs)
  case Nil
  then show ?case by auto
next
  case (Cons e es)
  show ?case
  proof (cases "is_continuation (l_line e)")
    case True
    with Cons.prems(1) have "read_lines log_pid es s = Inr s'"
      by simp
    from Cons.IH [OF this Cons.prems(2)] show ?thesis .
  next
    case False
    with Cons.prems(1) obtain s1 where d: "dispatch e s = Inr s1"
      and rest: "(if l_kill e \<noteq> 0 then Inr (emit (Kill log_pid 0) s1)
                  else read_lines log_pid es (emit (Kill log_pid 0) s1)) = Inr s'"
      by (auto simp: Let_def split: sum.splits)
    let ?accs1 = "accs @ replicate (count_spawn (trace s1) - count_spawn (trace s)) Accepting"
    from d have "step hc (s, accs) (s1, ?accs1)"
      by (rule step.Dispatch)
    with Cons.prems(2) have "reachable hc (s1, ?accs1)"
      by (rule reachable.Step)
    moreover have "step hc (s1, ?accs1) (emit (Kill log_pid 0) s1, ?accs1)"
      by (rule step.Alive)
    ultimately have r: "reachable hc (emit (Kill log_pid 0) s1, ?accs1)"
      by (rule reachable.Step)
    show ?thesis
    proof (cases "l_kill e \<noteq> 0")
      case True
      with rest r show ?thesis by auto
    next
      case False
      with rest have "read_lines log_pid es (emit (Kill log_pid 0) s1) = Inr s'"
        by simp
      from Cons.IH [OF this r] show ?thesis .
    qed
  qed
qed

lemma log_daemon_loop_reachable:
  assumes "log_daemon_loop runs s = out"
    and "out = Returned s' \<or> out = Out_of_input s' \<or> out = Hung_in_probe s'"
    and "reachable hc (s, accs)"
  shows "\<exists>accs'. reachable hc (s', accs')"
  using assms
proof (induction runs arbitrary: s accs)
  case Nil
  show ?case
  proof (cases "loggable s = 0")
    case True
    then have "step hc (s, accs) (disable_events all_events s, accs)"
      by (rule step.Disable)
    with Nil.prems(3) have "reachable hc (disable_events all_events s, accs)"
      by (rule reachable.Step)
    with True Nil.prems(1,2) show ?thesis by auto
  next
    case False
    with Nil.prems show ?thesis by auto
  qed
next
  case (Cons r rs)
  show ?case
  proof (cases "loggable s = 0")
    case True
    then have "step hc (s, accs) (disable_events all_events s, accs)"
      by (rule step.Disable)
    with Cons.prems(3) have "reachable hc (disable_events all_events s, accs)"
      by (rule reachable.Step)
    with True Cons.prems(1,2) show ?thesis by auto
  next
    case False
    let ?s1 = "emit (Exec_command logcat_argv (r_pid r) (r_fd r)) s"
    have "step hc (s, accs) (?s1, accs)"
      by (rule step.Start)
    with Cons.prems(3) have r1: "reachable hc (?s1, accs)"
      by (rule reachable.Step)
    from False Cons.prems(1,2) obtain s2 where
      rl: "read_lines (r_pid r) (r_lines r) ?s1 = Inr s2"
      by (auto simp: Let_def split: sum.splits)
    from read_lines_reachable [OF rl r1] obtain accs2 where
      r2: "reachable hc (s2, accs2)"
      by blast
    let ?s5 = "emit (Waitpid (r_pid r)) (emit (Kill (r_pid r) SIGTERM) (emit (Fclose (r_fd r)) s2))"
    have "step hc (s2, accs2) (?s5, accs2)"
      by (rule step.Cleanup)
    with r2 have r5: "reachable hc (?s5, accs2)"
      by (rule reachable.Step)
    show ?thesis
    proof (cases "test_logcat (r_probe r) ?s5")
      case None
      with False rl Cons.prems(1,2) have "s' = ?s5"
        by (auto simp: Let_def)
      with r5 show ?thesis by auto
    next
      case (Some s6)
      then have "step hc (?s5, accs2) (s6, accs2)"
        by (rule step.Probe)
      with r5 have r6: "reachable hc (s6, accs2)"
        by (rule reachable.Step)
      from False rl Some Cons.prems(1) have "log_daemon_loop rs s6 = out"
        by (simp add: Let_def)
      from Cons.IH [OF this Cons.prems(2) r6] show ?thesis .
    qed
  qed
qed

lemma socket_thread_reachable:
  assumes "socket_thread hc conns s = (out, s')"
    and "reachable hc (s, xs @ Accepting # ys)"
  shows "reachable hc (s', if out = Thread_returned then xs @ ys else xs @ Accepting # ys)"
  using assms
proof (induction conns arbitrary: s)
  case Nil
  then show ?case by auto
next
  case (Cons c conns)
  obtain cfd code where c: "c = (cfd, code)"
    by (cases c)
  show ?case
  proof (cases "code = hc")
    case True
    have "step hc (s, xs @ Accepting # ys) (acceptor_register cfd hc s, xs @ Registered # ys)"
      by (rule step.Register) simp
    with Cons.prems(2) have "reachable hc (acceptor_register cfd hc s, xs @ Registered # ys)"
      by (rule reachable.Step)
    moreover have "step hc (acceptor_register cfd hc s, xs @ Registered # ys)
                     (acceptor_exit (acceptor_register cfd hc s), xs @ ys)"
      by (rule step.Exit) simp
    ultimately have "reachable hc (acceptor_exit (acceptor_register cfd hc s), xs @ ys)"
      by (rule reachable.Step)
    with True c Cons.prems(1) show ?thesis
      by (auto simp: socket_thread_steps simp del: socket_thread.simps)
  next
    case False
    then have "step hc (s, xs @ Accepting # ys) (acceptor_reject cfd code s, xs @ Accepting # ys)"
      by (intro step.Reject) simp_all
    with Cons.prems(2) have r: "reachable hc (acceptor_reject cfd code s, xs @ Accepting # ys)"
      by (rule reachable.Step)
    from False c Cons.prems(1) have "socket_thread hc conns (acceptor_reject cfd code s) = (out, s')"
      by (simp add: socket_thread_steps del: socket_thread.simps)
    from Cons.IH [OF this r] show ?thesis .
  qed
qed

text \<open>
  C3 (spawning the acceptor).  The claim has the loop create an acceptor only when none
  is outstanding, so that there is never more than one.  The loop takes \<open>thread < 0\<close>
  for "none is outstanding", and a thread id is a \<open>long\<close> that may be negative.  With two
  lines read in a row from the initial state and negative ids handed out, the first
  dispatch creates an acceptor and leaves \<open>thread\<close> negative, and the second creates
  another while the first is still accepting: two acceptors are outstanding.
\<close>

theorem negative_thread_id_spawns_second_acceptor:
  "read_lines 100
     [\<lparr>l_line = ''x\<newline>'', l_broken = {}, l_tid = - 1225406160, l_kill = 0\<rparr>,
      \<lparr>l_line = ''y\<newline>'', l_broken = {}, l_tid = - 1225410256, l_kill = 0\<rparr>]
     init_state =
     Inr (init_state\<lparr>thread := - 1225410256,
            trace := [Mutex_lock, Pthread_create (- 1225406160), Mutex_unlock, Kill 100 0,
                      Mutex_lock, Pthread_create (- 1225410256), Mutex_unlock, Kill 100 0]\<rparr>) \<and>
   reachable 12
     (init_state\<lparr>thread := - 1225410256,
            trace := [Mutex_lock, Pthread_create (- 1225406160), Mutex_unlock, Kill 100 0,
                      Mutex_lock, Pthread_create (- 1225410256), Mutex_unlock, Kill 100 0]\<rparr>,
      [Accepting, Accepting])"
proof
  let ?e1 = "\<lparr>l_line = ''x\<newline>'', l_broken = {}, l_tid = - 1225406160, l_kill = 0\<rparr>"
  let ?e2 = "\<lparr>l_line = ''y\<newline>'', l_broken = {}, l_tid = - 1225410256, l_kill = 0\<rparr>"
  let ?s1 = "init_state\<lparr>thread := - 1225406160,
               trace := [Mutex_lock, Pthread_create (- 1225406160), Mutex_unlock]\<rparr>"
  let ?s2 = "init_state\<lparr>thread := - 1225406160,
               trace := [Mutex_lock, Pthread_create (- 1225406160), Mutex_unlock, Kill 100 0]\<rparr>"
  let ?s3 = "init_state\<lparr>thread := - 1225410256,
               trace := [Mutex_lock, Pthread_create (- 1225406160), Mutex_unlock, Kill 100 0,
                         Mutex_lock, Pthread_create (- 1225410256), Mutex_unlock]\<rparr>"
  let ?s4 = "init_state\<lparr>thread := - 1225410256,
               trace := [Mutex_lock, Pthread_create (- 1225406160), Mutex_unlock, Kill 100 0,
                         Mutex_lock, Pthread_create (- 1225410256), Mutex_unlock, Kill 100 0]\<rparr>"
  note defs = dispatch_def Let_def all_events_def init_state_def log_events_init_def
    emit_def xpthread_create_def is_continuation_def
  have d1: "dispatch ?e1 init_state = Inr ?s1"
    by (simp add: defs)
  have d2: "dispatch ?e2 ?s2 = Inr ?s3"
    by (simp add: defs)
  have k1: "emit (Kill 100 0) ?s1 = ?s2" and k2: "emit (Kill 100 0) ?s3 = ?s4"
    by (simp_all add: emit_def init_state_def)
  show "read_lines 100 [?e1, ?e2] init_state = Inr ?s4"
    by (simp add: is_continuation_def d1 k1 d2 k2)
  have "step 12 (init_state, [])
          (?s1, [] @ replicate (count_spawn (trace ?s1) - count_spawn (trace init_state)) Accepting)"
    using d1 by (rule step.Dispatch)
  then have "step 12 (init_state, []) (?s1, [Accepting])"
    by (simp add: init_state_def)
  with reachable.Init have r1: "reachable 12 (?s1, [Accepting])"
    by (rule reachable.Step)
  have "step 12 (?s1, [Accepting]) (emit (Kill 100 0) ?s1, [Accepting])"
    by (rule step.Alive)
  with r1 have r2: "reachable 12 (?s2, [Accepting])"
    unfolding k1 by (rule reachable.Step)
  have "step 12 (?s2, [Accepting])
          (?s3, [Accepting] @ replicate (count_spawn (trace ?s3) - count_spawn (trace ?s2)) Accepting)"
    using d2 by (rule step.Dispatch)
  then have "step 12 (?s2, [Accepting]) (?s3, [Accepting, Accepting])"
    by (simp add: init_state_def)
  with r2 have r3: "reachable 12 (?s3, [Accepting, Accepting])"
    by (rule reachable.Step)
  have "step 12 (?s3, [Accepting, Accepting]) (emit (Kill 100 0) ?s3, [Accepting, Accepting])"
    by (rule step.Alive)
  with r3 show "reachable 12 (?s4, [Accepting, Accepting])"
    unfolding k2 by (rule reachable.Step)
qed

end
